theory Spec2Isabelle
  imports Main
begin

section \<open>Python strings\<close>

text \<open>
  A Python \<open>str\<close> is modelled as a \<open>string\<close> (a list of \<open>char\<close>); a \<open>char\<close> stands for
  the code point of the same number, so the model covers text whose code points are
  below 256. A file holds a \<open>string\<close> too: the encoding is left out of the model, and the
  translation of line ends in text mode is \<open>read_text\<close> and \<open>write_text\<close> below.
\<close>

definition dq :: char where
  "dq = CHR 0x22"

definition bs :: char where
  "bs = CHR 0x5C"

definition nl :: char where
  "nl = CHR 0x0A"

definition cr :: char where
  "cr = CHR 0x0D"

text \<open>
  \<open>str.isspace\<close> on one character, which is also what \<open>\s\<close> matches in a \<open>str\<close>
  pattern: the code points below 256 that Python counts as whitespace.
\<close>

definition is_space :: "char \<Rightarrow> bool" where
  "is_space c = (c \<in> set [CHR 0x09, CHR 0x0A, CHR 0x0B, CHR 0x0C, CHR 0x0D,
     CHR 0x1C, CHR 0x1D, CHR 0x1E, CHR 0x1F, CHR 0x20, CHR 0x85, CHR 0xA0])"

text \<open>\<open>s.strip()\<close>: whitespace removed at both ends.\<close>

definition strip :: "string \<Rightarrow> string" where
  "strip s = rev (dropWhile is_space (rev (dropWhile is_space s)))"

text \<open>\<open>s.startswith(c)\<close> and \<open>s.endswith(c)\<close> for a one-character \<open>c\<close>.\<close>

fun startswith :: "string \<Rightarrow> char \<Rightarrow> bool" where
  "startswith [] c = False"
| "startswith (x # xs) c = (x = c)"

definition endswith :: "string \<Rightarrow> char \<Rightarrow> bool" where
  "endswith s c = startswith (rev s) c"

section \<open>The record parser: fragment repair\<close>

text \<open>
  Lines 29 to 33 of the script: the fragment is stripped, an opening brace is put in
  front unless it starts with one, and then a closing brace is put behind unless the
  string (with the opening brace already added) ends with one.
\<close>

definition add_open :: "string \<Rightarrow> string" where
  "add_open s = (if \<not> startswith s CHR ''{'' then CHR ''{'' # s else s)"

definition add_close :: "string \<Rightarrow> string" where
  "add_close s = (if \<not> endswith s CHR ''}'' then s @ [CHR ''}''] else s)"

definition repair :: "string \<Rightarrow> string" where
  "repair q_str = add_close (add_open (strip q_str))"

section \<open>The extractor\<close>

text \<open>\<open>after_prefix p s\<close> is the rest of \<open>s\<close> behind the literal text \<open>p\<close>, if \<open>s\<close> starts with it.\<close>

fun after_prefix :: "string \<Rightarrow> string \<Rightarrow> string option" where
  "after_prefix [] s = Some s"
| "after_prefix (p # ps) [] = None"
| "after_prefix (p # ps) (c # cs) = (if p = c then after_prefix ps cs else None)"

text \<open>
  The tail \<open>(.*?)\n\]\<close> of the pattern, with \<open>re.DOTALL\<close>: the group is the shortest
  text that is followed by a newline and a closing bracket.
\<close>

fun find_close :: "string \<Rightarrow> string option" where
  "find_close [] = None"
| "find_close (c # cs) =
     (if c = nl \<and> startswith cs CHR '']'' then Some []
      else map_option ((#) c) (find_close cs))"

text \<open>
  Line 14, \<open>re.search(r'test5_questions = \[(.*?)\n\]', content, re.DOTALL)\<close>: the
  leftmost position where the pattern matches; the result is \<open>match.group(1)\<close>, and
  \<open>None\<close> when there is no match.
\<close>

fun re_search :: "string \<Rightarrow> string option" where
  "re_search [] = None"
| "re_search (c # cs) =
     (case after_prefix ''test5_questions = ['' (c # cs) of
        None \<Rightarrow> re_search cs
      | Some rest \<Rightarrow>
          (case find_close rest of
             None \<Rightarrow> re_search cs
           | Some array_content \<Rightarrow> Some array_content))"

section \<open>The record parser: splitting\<close>

text \<open>
  The boundary pattern \<open>\},\s*\n\s*\{\<close> at the start of a string: a closing brace, a
  comma, a run of whitespace that holds a newline, an opening brace. The result is the
  text behind the match.
\<close>

definition match_boundary :: "string \<Rightarrow> string option" where
  "match_boundary s =
     (case after_prefix ''},'' s of
        None \<Rightarrow> None
      | Some r \<Rightarrow>
          if nl \<in> set (takeWhile is_space r)
          then (case dropWhile is_space r of
                  [] \<Rightarrow> None
                | c # r' \<Rightarrow> if c = CHR ''{'' then Some r' else None)
          else None)"

text \<open>
  Line 25, \<open>re.split\<close> on the boundary pattern: the text is cut at the leftmost matches,
  one after the other, and the matched text is dropped. The result is never empty; the
  first case of the inner \<open>case\<close> is there for totality only.
\<close>

function re_split :: "string \<Rightarrow> string list" where
  "re_split [] = [[]]"
| "re_split (c # cs) =
     (case match_boundary (c # cs) of
        Some rest \<Rightarrow> [] # re_split rest
      | None \<Rightarrow>
          (case re_split cs of
             [] \<Rightarrow> [[c]]
           | piece # pieces \<Rightarrow> (c # piece) # pieces))"
  by pat_completeness auto
termination
proof (relation "measure length")
  fix c cs rest
  assume m: "match_boundary (c # cs) = Some rest"
  have p: "after_prefix p s = Some r \<Longrightarrow> s = p @ r" for p s r
    by (induction p s rule: after_prefix.induct) (simp_all split: if_splits)
  from m obtain r where r: "after_prefix ''},'' (c # cs) = Some r"
    and d: "dropWhile is_space r = CHR ''{'' # rest"
    by (auto simp: match_boundary_def split: if_splits option.splits list.splits)
  have "length (dropWhile is_space r) \<le> length r"
    by (rule length_dropWhile_le)
  with d have "length rest < length r" by simp
  moreover from p [OF r] have "length r < length (c # cs)" by simp
  ultimately show "(rest, c # cs) \<in> measure length" by simp
qed simp_all

section \<open>Python values and the evaluator\<close>

text \<open>
  The values a record holds: integers, strings and lists of values. A record is a
  dictionary from field names to values. \<open>eval\<close> is Python's own evaluator and is a
  parameter \<open>ev\<close> of the model: \<open>ev s = Inr d\<close> when \<open>eval(s)\<close> returns the dictionary
  \<open>d\<close>, and \<open>ev s = Inl msg\<close> when it raises an \<open>Exception\<close> whose text is \<open>msg\<close>.
  Other Python values (floats, booleans, \<open>None\<close>, tuples, a dictionary as the value of a
  field) and an evaluation that returns no dictionary are outside the model.
\<close>

datatype pyval = PyInt int | PyStr string | PyList "pyval list"

type_synonym pydict = "string \<rightharpoonup> pyval"

type_synonym evaluator = "string \<Rightarrow> string + pydict"

datatype exn =
    KeyError string
  | AttributeError string
  | FileNotFoundError string
  | SystemExit int

definition bind_exn :: "exn + 'a \<Rightarrow> ('a \<Rightarrow> exn + 'b) \<Rightarrow> exn + 'b" where
  "bind_exn r f = (case r of Inl e \<Rightarrow> Inl e | Inr x \<Rightarrow> f x)"

text \<open>\<open>str(n)\<close> for a Python integer: decimal digits, a minus sign when negative.\<close>

definition digit_char :: "nat \<Rightarrow> char" where
  "digit_char d = char_of (48 + d)"

fun show_nat :: "nat \<Rightarrow> string" where
  "show_nat n =
     (if n < 10 then [digit_char n] else show_nat (n div 10) @ [digit_char (n mod 10)])"

declare show_nat.simps [simp del]

definition show_int :: "int \<Rightarrow> string" where
  "show_int i = (if i < 0 then CHR ''-'' # show_nat (nat (- i)) else show_nat (nat i))"

text \<open>
  \<open>json.dumps\<close> with its defaults (\<open>ensure_ascii\<close>, separators \<open>', '\<close>): in a string the
  quote, the backslash and every character outside the range from space to tilde are
  escaped; a list is written in brackets with its items in order.
\<close>

definition hex_digit :: "nat \<Rightarrow> char" where
  "hex_digit d = (if d < 10 then char_of (48 + d) else char_of (87 + d))"

definition json_escape_char :: "char \<Rightarrow> string" where
  "json_escape_char c =
     (if c = dq then [bs, dq]
      else if c = bs then [bs, bs]
      else if c = nl then [bs, CHR ''n'']
      else if c = CHR 0x0D then [bs, CHR ''r'']
      else if c = CHR 0x09 then [bs, CHR ''t'']
      else if c = CHR 0x08 then [bs, CHR ''b'']
      else if c = CHR 0x0C then [bs, CHR ''f'']
      else if (of_char c :: nat) < 0x20 \<or> 0x7E < (of_char c :: nat)
        then [bs, CHR ''u'', CHR ''0'', CHR ''0'',
              hex_digit (of_char c div 16), hex_digit (of_char c mod 16)]
      else [c])"

text \<open>\<open>sep.join(xs)\<close>.\<close>

fun join :: "string \<Rightarrow> string list \<Rightarrow> string" where
  "join sep [] = []"
| "join sep [x] = x"
| "join sep (x # y # ys) = x @ sep @ join sep (y # ys)"

fun json_dumps :: "pyval \<Rightarrow> string" where
  "json_dumps (PyInt n) = show_int n"
| "json_dumps (PyStr s) = dq # concat (map json_escape_char s) @ [dq]"
| "json_dumps (PyList xs) = ''['' @ join '', '' (map json_dumps xs) @ '']''"

section \<open>The record parser: the loop\<close>

text \<open>
  Lines 27 to 42. \<open>parse_loop ev i fragments\<close> runs the loop from index \<open>i\<close> on; it
  returns the records appended to \<open>questions\<close> and the lines printed, both in order.
\<close>

definition report :: "nat \<Rightarrow> string \<Rightarrow> string \<Rightarrow> string list" where
  "report i e q_str =
     [''Error parsing question '' @ show_nat (i + 1) @ '': '' @ e,
      ''String: '' @ take 200 q_str]"

fun parse_loop :: "evaluator \<Rightarrow> nat \<Rightarrow> string list \<Rightarrow> pydict list \<times> string list" where
  "parse_loop ev i [] = ([], [])"
| "parse_loop ev i (q_str # rest) =
     (let (questions, out) = parse_loop ev (Suc i) rest
      in case ev (repair q_str) of
           Inr q_dict \<Rightarrow> (q_dict # questions, out)
         | Inl e \<Rightarrow> (questions, report i e (repair q_str) @ out))"

text \<open>Lines 23 to 42: split the stripped array body, then run the loop.\<close>

definition parse_questions :: "evaluator \<Rightarrow> string \<Rightarrow> pydict list \<times> string list" where
  "parse_questions ev array_content = parse_loop ev 0 (re_split (strip array_content))"

section \<open>The re-emitter\<close>

text \<open>\<open>q[k]\<close>: a missing key raises \<open>KeyError\<close>.\<close>

definition getitem :: "pydict \<Rightarrow> string \<Rightarrow> exn + pyval" where
  "getitem q k = (case q k of None \<Rightarrow> Inl (KeyError k) | Some v \<Rightarrow> Inr v)"

text \<open>\<open>s.replace('"', '\\"')\<close> on a string.\<close>

fun replace_quote :: "string \<Rightarrow> string" where
  "replace_quote [] = []"
| "replace_quote (c # cs) =
     (if c = dq then bs # dq # replace_quote cs else c # replace_quote cs)"

text \<open>
  \<open>q[k].replace('"', '\\"')\<close>: an integer and a list have no method \<open>replace\<close>, which
  raises \<open>AttributeError\<close>.
\<close>

definition escaped_field :: "pydict \<Rightarrow> string \<Rightarrow> exn + string" where
  "escaped_field q k =
     bind_exn (getitem q k)
       (\<lambda>v. case v of
          PyStr s \<Rightarrow> Inr (replace_quote s)
        | _ \<Rightarrow> Inl (AttributeError ''replace''))"

text \<open>
  Line 50: \<open>json.dumps(a) if isinstance(a, list) else str(a)\<close>; \<open>str\<close> of an integer is
  its numeral and \<open>str\<close> of a string is the string.
\<close>

fun answer_str :: "pyval \<Rightarrow> string" where
  "answer_str (PyList xs) = json_dumps (PyList xs)"
| "answer_str (PyInt n) = show_int n"
| "answer_str (PyStr s) = s"

text \<open>Line 58, the template of one line.\<close>

definition template :: "string \<Rightarrow> string \<Rightarrow> string \<Rightarrow> string \<Rightarrow> string \<Rightarrow> string" where
  "template cat question_text options answer explain_text =
     ''      { cat: \"'' @ cat @ ''\", q: \"'' @ question_text @ ''\", options: '' @ options
       @ '', answer: '' @ answer @ '', explain: \"'' @ explain_text @ ''\" }''"

text \<open>Lines 50 to 58, the body of the loop, in the order the script reads the fields.\<close>

definition js_q :: "pydict \<Rightarrow> exn + string" where
  "js_q q =
     bind_exn (getitem q ''answer'') (\<lambda>a.
     bind_exn (escaped_field q ''cat'') (\<lambda>cat.
     bind_exn (escaped_field q ''q'') (\<lambda>question_text.
     bind_exn (escaped_field q ''explain'') (\<lambda>explain_text.
     bind_exn (getitem q ''options'') (\<lambda>opts.
       Inr (template cat question_text (json_dumps opts) (answer_str a) explain_text))))))"

text \<open>Lines 47 to 59: the loop stops at the first record that raises.\<close>

fun js_questions :: "pydict list \<Rightarrow> exn + string list" where
  "js_questions [] = Inr []"
| "js_questions (q # qs) =
     bind_exn (js_q q) (\<lambda>line. bind_exn (js_questions qs) (\<lambda>lines. Inr (line # lines)))"

section \<open>Files in text mode\<close>

text \<open>
  Both files are opened in text mode with the default \<open>newline\<close>. Reading translates
  the line ends: a carriage return followed by a newline, and every other carriage return,
  is read as one newline. Writing puts the line separator of the platform, \<open>os.linesep\<close>,
  in the place of every newline; it is a parameter \<open>linesep\<close> of the model, a newline on
  Linux and macOS and a carriage return with a newline on Windows.
\<close>

fun read_text :: "string \<Rightarrow> string" where
  "read_text [] = []"
| "read_text [c] = (if c = cr then [nl] else [c])"
| "read_text (c # d # ds) =
     (if c = cr \<and> d = nl then nl # read_text ds
      else if c = cr then nl # read_text (d # ds)
      else c # read_text (d # ds))"

definition write_text :: "string \<Rightarrow> string \<Rightarrow> string" where
  "write_text linesep s = concat (map (\<lambda>c. if c = nl then linesep else [c]) s)"

section \<open>The splicer\<close>

text \<open>
  \<open>f.readlines()\<close> on the text that \<open>read_text\<close> returns: the lines, each with its
  newline; the last line may have none. \<open>f.writelines(xs)\<close> writes the items one behind
  the other, with nothing between them: \<open>concat xs\<close>, through \<open>write_text\<close>.
\<close>

fun readlines :: "string \<Rightarrow> string list" where
  "readlines [] = []"
| "readlines (c # cs) =
     (if c = nl then [c] # readlines cs
      else (case readlines cs of
              [] \<Rightarrow> [[c]]
            | line # lines \<Rightarrow> (c # line) # lines))"

text \<open>
  \<open>xs.insert(i, x)\<close> for \<open>i \<ge> 0\<close>: before the item at index \<open>i\<close>, and at the end when the
  list has no such index.
\<close>

definition list_insert :: "nat \<Rightarrow> 'a \<Rightarrow> 'a list \<Rightarrow> 'a list" where
  "list_insert i x xs = take i xs @ x # drop i xs"

definition insert_line :: nat where
  "insert_line = 773"

text \<open>Line 69.\<close>

definition new_questions_text :: "string list \<Rightarrow> string" where
  "new_questions_text js = join [CHR '','', nl] js @ [CHR '','', nl]"

section \<open>The script\<close>

text \<open>
  The world of the script: the files by name, each with the text it holds on disk, and
  the trace of what the script did (the files it read and wrote, the lines it printed).
  The run ends normally or with an exception; \<open>exit(1)\<close> raises \<open>SystemExit\<close> with
  status 1.
\<close>

datatype event = Read string | Write string | Print string

record world =
  files :: "string \<rightharpoonup> string"
  trace :: "event list"

datatype status = Completed | Raised exn

definition record_events :: "event list \<Rightarrow> world \<Rightarrow> world" where
  "record_events es w = w\<lparr>trace := trace w @ es\<rparr>"

definition source_name :: string where
  "source_name = ''add_questions.py''"

definition html_name :: string where
  "html_name = ''awsprepai-multicert.html''"

text \<open>Lines 61 to 77: read the destination, insert the block, write the lines back.\<close>

definition splice_block :: "string \<Rightarrow> nat \<Rightarrow> string list \<Rightarrow> world \<Rightarrow> status \<times> world" where
  "splice_block linesep n js w =
     (case files w html_name of
        None \<Rightarrow> (Raised (FileNotFoundError html_name), w)
      | Some raw \<Rightarrow>
          let html_lines =
                list_insert insert_line (new_questions_text js) (readlines (read_text raw))
          in (Completed,
              record_events
                [Read html_name, Write html_name,
                 Print (''Successfully added '' @ show_nat n
                   @ '' questions from Test #5 to awsprepai-multicert.html''),
                 Print (''New total SAA questions: '' @ show_nat (422 + n))]
                (w\<lparr>files := (files w)(html_name \<mapsto> write_text linesep (concat html_lines))\<rparr>)))"

text \<open>The whole script, lines 9 to 77.\<close>

definition main :: "evaluator \<Rightarrow> string \<Rightarrow> world \<Rightarrow> status \<times> world" where
  "main ev linesep w =
     (case files w source_name of
        None \<Rightarrow> (Raised (FileNotFoundError source_name), w)
      | Some raw \<Rightarrow>
          (case re_search (read_text raw) of
             None \<Rightarrow>
               (Raised (SystemExit 1),
                record_events [Read source_name, Print ''Could not find test5_questions array''] w)
           | Some array_content \<Rightarrow>
               let (questions, out) = parse_questions ev array_content;
                   w' = record_events
                          (Read source_name # map Print out
                           @ [Print (''Parsed '' @ show_nat (length questions)
                                @ '' questions from Test #5'')]) w
               in (case js_questions questions of
                     Inl e \<Rightarrow> (Raised e, w')
                   | Inr js \<Rightarrow> splice_block linesep (length questions) js w')))"

section \<open>Lines of a text\<close>

text \<open>
  A line, as \<open>readlines\<close> returns it, is not empty and holds a newline at its end only;
  in a list of lines every line but the last ends with a newline.
\<close>

definition is_line :: "string \<Rightarrow> bool" where
  "is_line l = (l \<noteq> [] \<and> nl \<notin> set (butlast l))"

fun wf_lines :: "string list \<Rightarrow> bool" where
  "wf_lines [] = True"
| "wf_lines [l] = is_line l"
| "wf_lines (l # m # ls) = (is_line l \<and> last l = nl \<and> wf_lines (m # ls))"

text \<open>
  The text that line 74 writes, for the text \<open>html\<close> that line 63 has read: the lines of
  the destination with the block inserted.
\<close>

definition rewritten :: "string \<Rightarrow> string list \<Rightarrow> string" where
  "rewritten html js = concat (list_insert insert_line (new_questions_text js) (readlines html))"

text \<open>
  The text fields of a record hold no line end, neither a newline nor a carriage return:
  \<open>cat\<close>, \<open>q\<close> and \<open>explain\<close>, and \<open>answer\<close> where it is text.
\<close>

definition text_fields_one_line :: "pydict \<Rightarrow> bool" where
  "text_fields_one_line q =
     list_all (\<lambda>k. case q k of Some (PyStr s) \<Rightarrow> nl \<notin> set s \<and> cr \<notin> set s | _ \<Rightarrow> True)
       [''cat'', ''q'', ''explain'', ''answer'']"

text \<open>
  The block in the words of the specification: every line with a comma and a newline
  behind it. With no line at all the script still writes one comma and a newline.
\<close>

definition comma_lines :: "string list \<Rightarrow> string" where
  "comma_lines js =
     (if js = [] then [CHR '','', nl] else concat (map (\<lambda>l. l @ [CHR '','', nl]) js))"



section \<open>Reading the destination format\<close>

text \<open>
  What the claims say about the emitted text is stated with readers of the destination
  format. These are not in the script; they follow the wording of the specification.
  A numeral is read as digits with an optional minus sign.
\<close>

definition is_digit :: "char \<Rightarrow> bool" where
  "is_digit c = (48 \<le> (of_char c :: nat) \<and> (of_char c :: nat) \<le> 57)"

definition digit_val :: "char \<Rightarrow> nat" where
  "digit_val c = of_char c - 48"

definition read_nat :: "string \<Rightarrow> nat option" where
  "read_nat s =
     (if s \<noteq> [] \<and> list_all is_digit s
      then Some (foldl (\<lambda>a c. 10 * a + digit_val c) 0 s) else None)"

definition read_int :: "string \<Rightarrow> int option" where
  "read_int s =
     (case s of
        [] \<Rightarrow> None
      | c # r \<Rightarrow>
          if c = CHR ''-'' then map_option (\<lambda>n. - int n) (read_nat r)
          else map_option int (read_nat s))"

text \<open>
  Escaping as the specification words it: a backslash in front of every double quote,
  every other character as it is.
\<close>

definition escape_quotes_only :: "string \<Rightarrow> string" where
  "escape_quotes_only s = concat (map (\<lambda>c. if c = dq then [bs, dq] else [c]) s)"

section \<open>A sample run\<close>

text \<open>
  The end-to-end scenario of the specification: two records, one with a single answer and
  one with a list of answers. \<open>sample_eval\<close> evaluates the two fragments of the scenario
  and fails on every other text. The third record holds quotes, a backslash and a newline.
\<close>

definition sample_q1 :: pydict where
  "sample_q1 = [''cat'' \<mapsto> PyStr ''A'', ''q'' \<mapsto> PyStr ''Q1?'',
     ''options'' \<mapsto> PyList [PyStr ''x'', PyStr ''y''], ''answer'' \<mapsto> PyInt 0,
     ''explain'' \<mapsto> PyStr ''E1'']"

definition sample_q2 :: pydict where
  "sample_q2 = [''cat'' \<mapsto> PyStr ''B'', ''q'' \<mapsto> PyStr ''Q2?'',
     ''options'' \<mapsto> PyList [PyStr ''m'', PyStr ''n''], ''answer'' \<mapsto> PyList [PyInt 0, PyInt 1],
     ''explain'' \<mapsto> PyStr ''E2'']"

definition sample_q3 :: pydict where
  "sample_q3 = [''cat'' \<mapsto> PyStr ''a\"b'', ''q'' \<mapsto> PyStr [bs, CHR ''n'', nl],
     ''options'' \<mapsto> PyList [], ''answer'' \<mapsto> PyInt 1, ''explain'' \<mapsto> PyStr ''\"'']"

definition sample_text1 :: string where
  "sample_text1 = ''{\"cat\": \"A\", \"q\": \"Q1?\", \"options\": [\"x\", \"y\"], \"answer\": 0, \"explain\": \"E1\"}''"

definition sample_text2 :: string where
  "sample_text2 = ''{\"cat\": \"B\", \"q\": \"Q2?\", \"options\": [\"m\", \"n\"], \"answer\": [0, 1], \"explain\": \"E2\"}''"

definition sample_eval :: evaluator where
  "sample_eval s =
     (if s = sample_text1 then Inr sample_q1
      else if s = sample_text2 then Inr sample_q2
      else Inl ''invalid syntax'')"

definition sample_source :: string where
  "sample_source = ''test5_questions = ['' @ [nl] @ ''    '' @ sample_text1 @ '','' @ [nl]
     @ ''    '' @ sample_text2 @ [nl] @ '']'' @ [nl]"

definition sample_html :: string where
  "sample_html = concat (replicate 773 (''<p>'' @ [nl])) @ ''];'' @ [nl]"

definition sample_world :: "string \<Rightarrow> string \<Rightarrow> world" where
  "sample_world source html = \<lparr>files = [source_name \<mapsto> source, html_name \<mapsto> html], trace = []\<rparr>"

definition sample_line1 :: string where
  "sample_line1 = ''      { cat: \"A\", q: \"Q1?\", options: [\"x\", \"y\"], answer: 0, explain: \"E1\" }''"

definition sample_line2 :: string where
  "sample_line2 = ''      { cat: \"B\", q: \"Q2?\", options: [\"m\", \"n\"], answer: [0, 1], explain: \"E2\" }''"

definition sample_line3 :: string where
  "sample_line3 = ''      { cat: \"a'' @ [bs] @ ''\"b\", q: \"'' @ [bs, CHR ''n'', nl]
     @ ''\", options: [], answer: 1, explain: \"'' @ [bs] @ ''\"\" }''"

section \<open>Array bodies made of fragments\<close>

text \<open>
  The array bodies of claim C6, in the words of the specification. A separator is a text
  that the boundary pattern matches as a whole: a closing brace, a comma, whitespace with
  a newline in it, an opening brace.
\<close>

definition is_separator :: "string \<Rightarrow> bool" where
  "is_separator sep = (match_boundary sep = Some [])"

text \<open>A fragment holds no boundary: the pattern matches at none of its positions.\<close>

fun no_boundary :: "string \<Rightarrow> bool" where
  "no_boundary [] = True"
| "no_boundary (c # cs) = (match_boundary (c # cs) = None \<and> no_boundary cs)"

text \<open>The text made of a first fragment and of the later ones, each behind its separator.\<close>

fun assemble :: "string \<Rightarrow> (string \<times> string) list \<Rightarrow> string" where
  "assemble fragment [] = fragment"
| "assemble fragment ((sep, next_fragment) # later) = fragment @ sep @ assemble next_fragment later"



definition sample_body :: string where
  "sample_body = [nl] @ ''    '' @ sample_text1 @ '','' @ [nl] @ ''    '' @ sample_text2"


section \<open>Reading an emitted line\<close>

text \<open>
  The literal rules of the destination format, as claim C8 words them: in a quoted text
  field a backslash followed by a double quote stands for a double quote, and the field
  ends at the first double quote that is not escaped so. \<open>read_quoted\<close> reads the text
  behind the opening quote and returns the field and the rest.
\<close>

fun read_quoted :: "string \<Rightarrow> (string \<times> string) option" where
  "read_quoted [] = None"
| "read_quoted [c] = (if c = dq then Some ([], []) else None)"
| "read_quoted (c # d # ds) =
     (if c = dq then Some ([], d # ds)
      else if c = bs \<and> d = dq then map_option (apfst ((#) dq)) (read_quoted ds)
      else map_option (apfst ((#) c)) (read_quoted (d # ds)))"

text \<open>
  JSON text for the options: the escapes of a JSON string, with \<open>\u00XY\<close> for the code
  points that a \<open>char\<close> holds.
\<close>

definition hex_val :: "char \<Rightarrow> nat option" where
  "hex_val c =
     (if is_digit c then Some (of_char c - 48)
      else if 97 \<le> (of_char c :: nat) \<and> (of_char c :: nat) \<le> 102 then Some (of_char c - 87)
      else if 65 \<le> (of_char c :: nat) \<and> (of_char c :: nat) \<le> 70 then Some (of_char c - 55)
      else None)"

definition unescape_char :: "char \<Rightarrow> char option" where
  "unescape_char e =
     (if e = dq then Some dq
      else if e = bs then Some bs
      else if e = CHR ''/'' then Some CHR ''/''
      else if e = CHR ''n'' then Some nl
      else if e = CHR ''r'' then Some CHR 0x0D
      else if e = CHR ''t'' then Some CHR 0x09
      else if e = CHR ''b'' then Some CHR 0x08
      else if e = CHR ''f'' then Some CHR 0x0C
      else None)"

fun read_json_string :: "string \<Rightarrow> (string \<times> string) option" where
  "read_json_string [] = None"
| "read_json_string (c # cs) =
     (if c = dq then Some ([], cs)
      else if c = bs then
        (case cs of
           [] \<Rightarrow> None
         | e # r \<Rightarrow>
             if e = CHR ''u'' then
               (case r of
                  a # b # x # y # r' \<Rightarrow>
                    (case (hex_val x, hex_val y) of
                       (Some h, Some l) \<Rightarrow>
                         if a = CHR ''0'' \<and> b = CHR ''0''
                         then map_option (apfst ((#) (char_of (16 * h + l)))) (read_json_string r')
                         else None
                     | _ \<Rightarrow> None)
                | _ \<Rightarrow> None)
             else
               (case unescape_char e of
                  None \<Rightarrow> None
                | Some c' \<Rightarrow> map_option (apfst ((#) c')) (read_json_string r)))
      else map_option (apfst ((#) c)) (read_json_string cs))"

text \<open>A JSON array of strings, and one of integers; items are separated by a comma and spaces.\<close>

function read_strings :: "string \<Rightarrow> (string list \<times> string) option" where
  "read_strings s =
     (case s of
        [] \<Rightarrow> None
      | c # r \<Rightarrow>
          if c \<noteq> dq then None
          else (case read_json_string r of
                  None \<Rightarrow> None
                | Some (x, r') \<Rightarrow>
                    (case r' of
                       [] \<Rightarrow> None
                     | d # r'' \<Rightarrow>
                         if d = CHR '']'' then Some ([x], r'')
                         else if d = CHR '','' then
                           map_option (apfst ((#) x))
                             (read_strings (dropWhile (\<lambda>c. c = CHR '' '') r''))
                         else None)))"
  by pat_completeness auto
termination
proof (relation "measure length")
  fix s c r p x r' d r''
  assume a: "s = c # r" "read_json_string r = Some p" "(x, r') = p" "r' = d # r''"
  have "read_json_string t = Some (y, u) \<Longrightarrow> length u < length t" for t y u
  proof (induction "length t" arbitrary: t y u rule: less_induct)
    case less
    show ?case
    proof (cases t)
      case Nil
      with less.prems show ?thesis by simp
    next
      case (Cons c cs)
      have step: "read_json_string t' = Some (y', u) \<Longrightarrow> length t' < length t \<Longrightarrow> length u < length t"
        for t' y'
        using less.hyps [of t' y' u] by simp
      from less.prems show ?thesis
        unfolding Cons
        by (auto split: if_splits list.splits option.splits dest!: step simp: Cons)
    qed
  qed
  note len = this
  from a have "read_json_string r = Some (x, r')" by simp
  then have "length r' < length r" by (rule len)
  moreover have "length (dropWhile (\<lambda>c. c = CHR '' '') r'') \<le> length r''"
    by (rule length_dropWhile_le)
  ultimately show "(dropWhile (\<lambda>c. c = CHR '' '') r'', s) \<in> measure length"
    using a by simp
qed simp

declare read_strings.simps [simp del]

definition read_string_array :: "string \<Rightarrow> (string list \<times> string) option" where
  "read_string_array s =
     (case s of
        c # d # r \<Rightarrow>
          if c \<noteq> CHR ''['' then None
          else if d = CHR '']'' then Some ([], r)
          else read_strings (d # r)
      | _ \<Rightarrow> None)"

definition is_numeral_char :: "char \<Rightarrow> bool" where
  "is_numeral_char c = (is_digit c \<or> c = CHR ''-'')"

definition read_int_prefix :: "string \<Rightarrow> (int \<times> string) option" where
  "read_int_prefix s =
     map_option (\<lambda>i. (i, dropWhile is_numeral_char s)) (read_int (takeWhile is_numeral_char s))"

function read_ints :: "string \<Rightarrow> (int list \<times> string) option" where
  "read_ints s =
     (case read_int_prefix s of
        None \<Rightarrow> None
      | Some (i, r) \<Rightarrow>
          (case r of
             [] \<Rightarrow> None
           | d # r' \<Rightarrow>
               if d = CHR '']'' then Some ([i], r')
               else if d = CHR '','' then
                 map_option (apfst ((#) i)) (read_ints (dropWhile (\<lambda>c. c = CHR '' '') r'))
               else None))"
  by pat_completeness auto
termination
proof (relation "measure length")
  fix s p i r d r'
  assume a: "read_int_prefix s = Some p" "(i, r) = p" "r = d # r'"
  then have "r = dropWhile is_numeral_char s"
    by (auto simp: read_int_prefix_def)
  then have "length r \<le> length s"
    by (simp add: length_dropWhile_le)
  moreover have "length (dropWhile (\<lambda>c. c = CHR '' '') r') \<le> length r'"
    by (rule length_dropWhile_le)
  ultimately show "(dropWhile (\<lambda>c. c = CHR '' '') r', s) \<in> measure length"
    using a by simp
qed simp

declare read_ints.simps [simp del]

definition read_int_array :: "string \<Rightarrow> (int list \<times> string) option" where
  "read_int_array s =
     (case s of
        c # d # r \<Rightarrow>
          if c \<noteq> CHR ''['' then None
          else if d = CHR '']'' then Some ([], r)
          else read_ints (d # r)
      | _ \<Rightarrow> None)"

text \<open>The answer field: a JSON array of integers, or one numeral.\<close>

definition read_answer :: "string \<Rightarrow> (pyval \<times> string) option" where
  "read_answer s =
     (if startswith s CHR ''[''
      then map_option (apfst (\<lambda>ns. PyList (map PyInt ns))) (read_int_array s)
      else map_option (apfst PyInt) (read_int_prefix s))"

text \<open>
  A whole line of the template of line 58, read back into a record with the five fields.
\<close>

definition reparse :: "string \<Rightarrow> pydict option" where
  "reparse line =
     Option.bind (after_prefix ''      { cat: \"'' line) (\<lambda>r.
     Option.bind (read_quoted r) (\<lambda>(cat, r).
     Option.bind (after_prefix '', q: \"'' r) (\<lambda>r.
     Option.bind (read_quoted r) (\<lambda>(question_text, r).
     Option.bind (after_prefix '', options: '' r) (\<lambda>r.
     Option.bind (read_string_array r) (\<lambda>(opts, r).
     Option.bind (after_prefix '', answer: '' r) (\<lambda>r.
     Option.bind (read_answer r) (\<lambda>(answer, r).
     Option.bind (after_prefix '', explain: \"'' r) (\<lambda>r.
     Option.bind (read_quoted r) (\<lambda>(explain_text, r).
       if r = '' }''
       then Some [''cat'' \<mapsto> PyStr cat, ''q'' \<mapsto> PyStr question_text,
                  ''options'' \<mapsto> PyList (map PyStr opts), ''answer'' \<mapsto> answer,
                  ''explain'' \<mapsto> PyStr explain_text]
       else None))))))))))"

text \<open>
  More samples: a destination of two lines that end with a carriage return and a newline,
  and a source whose third fragment evaluates to a record with the \<open>answer\<close> field alone,
  with an evaluator that knows this fragment too.
\<close>

definition sample_html_crlf :: string where
  "sample_html_crlf = ''<p>'' @ [cr, nl] @ ''</p>'' @ [cr, nl]"





section \<open>Properties of the fragment repair\<close>

lemma brace_not_space: "\<not> is_space CHR ''{''" "\<not> is_space CHR ''}''"
  by (simp_all add: is_space_def)

lemma strip_no_space_ends:
  assumes "s \<noteq> []" "\<not> is_space (hd s)" "\<not> is_space (last s)"
  shows "strip s = s"
proof -
  from assms have a: "dropWhile is_space s = s"
    by (cases s) simp_all
  from assms have "rev s \<noteq> []" "\<not> is_space (hd (rev s))"
    by (simp_all add: hd_rev)
  then have "dropWhile is_space (rev s) = rev s"
    by (cases "rev s") simp_all
  with a show ?thesis by (simp add: strip_def)
qed

lemma endswith_last: "endswith s c \<longleftrightarrow> s \<noteq> [] \<and> last s = c"
proof (cases "rev s")
  case Nil
  then show ?thesis by (simp add: endswith_def)
next
  case (Cons x xs)
  then have "s = rev xs @ [x]" by (simp add: rev_eq_Cons_iff)
  then show ?thesis by (simp add: endswith_def)
qed

lemma startswith_hd: "startswith s c \<longleftrightarrow> s \<noteq> [] \<and> hd s = c"
  by (cases s) simp_all

lemma endswith_add_open: "endswith (add_open s) CHR ''}'' = endswith s CHR ''}''"
  by (cases s) (simp_all add: add_open_def endswith_last)

lemma repair_shape:
  "repair s = (if startswith (strip s) CHR ''{'' then [] else ''{'') @ strip s
     @ (if endswith (strip s) CHR ''}'' then [] else ''}'')"
  unfolding repair_def add_close_def endswith_add_open
  by (simp add: add_open_def)

lemma repair_ends: "startswith (repair s) CHR ''{''" "endswith (repair s) CHR ''}''"
  by (simp_all add: repair_shape startswith_hd endswith_last hd_append)

lemma strip_repair: "strip (repair s) = repair s"
proof (rule strip_no_space_ends)
  show "repair s \<noteq> []" using repair_ends(1) [of s] by (simp add: startswith_hd)
  show "\<not> is_space (hd (repair s))"
    using repair_ends(1) [of s] by (simp add: startswith_hd brace_not_space)
  show "\<not> is_space (last (repair s))"
    using repair_ends(2) [of s] by (simp add: endswith_last brace_not_space)
qed

text \<open>
  Claim C7. The repair puts an opening brace in front of the stripped fragment exactly
  when the stripped fragment does not start with one, and a closing brace behind it
  exactly when the stripped fragment does not end with one; nothing else changes. The
  repair is idempotent: a repaired fragment is repaired to itself.
\<close>

theorem repair_adds_braces_idempotent:
  "repair s = (if startswith (strip s) CHR ''{'' then [] else ''{'') @ strip s
     @ (if endswith (strip s) CHR ''}'' then [] else ''}'')
   \<and> repair (repair s) = repair s"
proof
  show "repair s = (if startswith (strip s) CHR ''{'' then [] else ''{'') @ strip s
     @ (if endswith (strip s) CHR ''}'' then [] else ''}'')"
    by (rule repair_shape)
  have "repair (repair s) = add_close (add_open (repair s))"
    by (subst repair_def) (simp add: strip_repair)
  also have "\<dots> = repair s"
    using repair_ends [of s] by (simp add: add_open_def add_close_def)
  finally show "repair (repair s) = repair s" .
qed

theorem repair_adds_braces_idempotent_witness:
  "repair '' \"cat\": 1 '' = ''{\"cat\": 1}''
   \<and> repair (repair '' \"cat\": 1 '') = ''{\"cat\": 1}''"
proof -
  have e: "repair '' \"cat\": 1 '' = ''{\"cat\": 1}''"
    by (simp add: repair_def add_open_def add_close_def strip_def is_space_def endswith_def)
  have "repair (repair '' \"cat\": 1 '') = repair '' \"cat\": 1 ''"
    using repair_adds_braces_idempotent [of "'' \"cat\": 1 ''"] by (rule conjunct2)
  with e show ?thesis by simp
qed

section \<open>Properties of the splicer\<close>

lemma concat_readlines: "concat (readlines s) = s"
  by (induction s) (auto split: list.splits)

lemma wf_lines_readlines: "wf_lines (readlines s)"
proof (induction s)
  case Nil
  show ?case by simp
next
  case (Cons c s)
  show ?case
  proof (cases "c = nl")
    case True
    with Cons show ?thesis by (cases "readlines s") (simp_all add: is_line_def)
  next
    case False
    show ?thesis
    proof (cases "readlines s")
      case Nil
      with False show ?thesis by (simp add: is_line_def)
    next
      case (Cons l ls)
      with False Cons.IH show ?thesis
        by (cases ls) (auto simp: is_line_def butlast_append split: if_splits)
    qed
  qed
qed

lemma readlines_line:
  assumes "is_line l" "last l = nl \<or> rest = []"
  shows "readlines (l @ rest) = l # readlines rest"
  using assms
proof (induction l)
  case Nil
  then show ?case by (simp add: is_line_def)
next
  case (Cons c l)
  show ?case
  proof (cases "l = []")
    case True
    with Cons.prems show ?thesis by (auto simp: is_line_def)
  next
    case False
    with Cons.prems have "is_line l" "c \<noteq> nl" "last l = nl \<or> rest = []"
      by (auto simp: is_line_def)
    with Cons.IH show ?thesis by simp
  qed
qed

lemma readlines_concat: "wf_lines ls \<Longrightarrow> readlines (concat ls) = ls"
proof (induction ls rule: wf_lines.induct)
  case 1
  show ?case by simp
next
  case (2 l)
  then show ?case using readlines_line [of l "[]"] by simp
next
  case (3 l m ls)
  then show ?case using readlines_line [of l "concat (m # ls)"] by simp
qed

lemma wf_lines_drop: "wf_lines ls \<Longrightarrow> wf_lines (drop n ls)"
proof (induction ls arbitrary: n rule: wf_lines.induct)
  case (3 l m ls)
  then show ?case by (cases n) simp_all
qed (simp_all add: drop_Cons split: nat.splits)

lemma wf_lines_take: "wf_lines ls \<Longrightarrow> wf_lines (take n ls)"
proof (induction ls arbitrary: n rule: wf_lines.induct)
  case (3 l m ls)
  show ?case
  proof (cases n)
    case 0
    then show ?thesis by simp
  next
    case (Suc k)
    show ?thesis
    proof (cases k)
      case 0
      with Suc 3 show ?thesis by simp
    next
      case (Suc j)
      from "3.prems" have "wf_lines (m # ls)" by simp
      then have "wf_lines (take (Suc j) (m # ls))" by (rule "3.IH")
      with "3.prems" Suc \<open>n = Suc k\<close> show ?thesis by simp
    qed
  qed
qed (simp_all add: take_Cons split: nat.splits)

lemma take_ends_nl:
  "wf_lines ls \<Longrightarrow> n < length ls \<Longrightarrow> concat (take n ls) = [] \<or> last (concat (take n ls)) = nl"
proof (induction ls arbitrary: n rule: wf_lines.induct)
  case (3 l m ls)
  show ?case
  proof (cases n)
    case 0
    then show ?thesis by simp
  next
    case (Suc k)
    with 3 have "concat (take k (m # ls)) = [] \<or> last (concat (take k (m # ls))) = nl"
      by simp
    moreover from 3 have "l \<noteq> []" "last l = nl" by (simp_all add: is_line_def)
    moreover have "concat (take n (l # m # ls)) = l @ concat (take k (m # ls))"
      using Suc by simp
    ultimately show ?thesis by (simp only: last_append) auto
  qed
qed simp_all

lemma readlines_append:
  "a = [] \<or> last a = nl \<Longrightarrow> readlines (a @ b) = readlines a @ readlines b"
proof (induction a)
  case Nil
  show ?case by simp
next
  case (Cons c a)
  show ?case
  proof (cases "a = []")
    case True
    with Cons.prems show ?thesis by simp
  next
    case False
    with Cons.prems have IH: "readlines (a @ b) = readlines a @ readlines b"
      using Cons.IH by simp
    from False have "readlines a \<noteq> []"
      using concat_readlines [of a] by auto
    then show ?thesis using IH by (auto split: list.splits)
  qed
qed

lemma rewritten_text:
  "rewritten html js = concat (take insert_line (readlines html)) @ new_questions_text js
     @ concat (drop insert_line (readlines html))"
  by (simp add: rewritten_def list_insert_def)

lemma rewritten_short:
  "length (readlines html) \<le> insert_line \<Longrightarrow> rewritten html js = html @ new_questions_text js"
  by (simp add: rewritten_text concat_readlines)

lemma new_questions_text_ends: "new_questions_text js \<noteq> []" "last (new_questions_text js) = nl"
  by (simp_all add: new_questions_text_def)

lemma readlines_rewritten:
  assumes "insert_line < length (readlines html) \<or> html = [] \<or> last html = nl"
  shows "readlines (rewritten html js) =
     take insert_line (readlines html) @ readlines (new_questions_text js)
       @ drop insert_line (readlines html)"
proof -
  let ?L = "readlines html"
  let ?A = "concat (take insert_line ?L)" and ?B = "concat (drop insert_line ?L)"
  have wf: "wf_lines ?L" by (rule wf_lines_readlines)
  have A: "?A = [] \<or> last ?A = nl"
  proof (cases "insert_line < length ?L")
    case True
    with wf show ?thesis by (rule take_ends_nl)
  next
    case False
    then have "?A = html" by (simp add: concat_readlines)
    with False assms show ?thesis by simp
  qed
  have "readlines (rewritten html js) = readlines (?A @ (new_questions_text js @ ?B))"
    by (simp add: rewritten_text)
  also have "\<dots> = readlines ?A @ readlines (new_questions_text js @ ?B)"
    using A by (rule readlines_append)
  also have "readlines (new_questions_text js @ ?B) = readlines (new_questions_text js) @ readlines ?B"
    using new_questions_text_ends [of js] by (intro readlines_append) simp
  also have "readlines ?A = take insert_line ?L"
    using wf by (intro readlines_concat wf_lines_take)
  also have "readlines ?B = drop insert_line ?L"
    using wf by (intro readlines_concat wf_lines_drop)
  finally show ?thesis .
qed

lemma readlines_one_line:
  "nl \<notin> set l \<Longrightarrow> readlines (l @ c # nl # rest) = (l @ [c, nl]) # readlines rest"
  if "c \<noteq> nl"
proof -
  assume n: "nl \<notin> set l"
  have "is_line (l @ [c, nl])"
    using n that by (simp add: is_line_def butlast_append)
  then have "readlines ((l @ [c, nl]) @ rest) = (l @ [c, nl]) # readlines rest"
    by (rule readlines_line) simp
  then show ?thesis by simp
qed

lemma readlines_new_questions_text:
  assumes "\<forall>l \<in> set js. nl \<notin> set l" "js \<noteq> []"
  shows "readlines (new_questions_text js) = map (\<lambda>l. l @ [CHR '','', nl]) js"
  using assms
proof (induction js)
  case Nil
  then show ?case by simp
next
  case (Cons x xs)
  then have x: "nl \<notin> set x" by simp
  show ?case
  proof (cases xs)
    case Nil
    then show ?thesis
      using readlines_one_line [of "CHR '',''" x "[]"] x
      by (simp add: new_questions_text_def nl_def)
  next
    case (Cons y ys)
    with Cons.IH Cons.prems
    have "readlines (new_questions_text xs) = map (\<lambda>l. l @ [CHR '','', nl]) xs"
      by simp
    moreover have "new_questions_text (x # xs) = x @ CHR '','' # nl # new_questions_text xs"
      using Cons by (simp add: new_questions_text_def)
    ultimately show ?thesis
      using readlines_one_line [of "CHR '',''" x "new_questions_text xs"] x
      by (simp add: nl_def)
  qed
qed

section \<open>Numerals and JSON text\<close>

lemma of_char_digit_char: "d < 10 \<Longrightarrow> (of_char (digit_char d) :: nat) = 48 + d"
  by (simp add: digit_char_def)

lemma is_digit_digit_char: "d < 10 \<Longrightarrow> is_digit (digit_char d)"
  by (simp add: is_digit_def of_char_digit_char)

lemma digit_val_digit_char: "d < 10 \<Longrightarrow> digit_val (digit_char d) = d"
  by (simp add: digit_val_def of_char_digit_char)

lemma show_nat_digits: "show_nat n \<noteq> [] \<and> list_all is_digit (show_nat n)"
proof (induction n rule: show_nat.induct)
  case (1 n)
  show ?case
  proof (cases "n < 10")
    case True
    then show ?thesis by (subst (1 2) show_nat.simps) (simp add: is_digit_digit_char)
  next
    case False
    with 1 show ?thesis by (subst (1 2) show_nat.simps) (simp add: is_digit_digit_char)
  qed
qed

lemma show_nat_value: "foldl (\<lambda>a c. 10 * a + digit_val c) 0 (show_nat n) = n"
proof (induction n rule: show_nat.induct)
  case (1 n)
  show ?case
  proof (cases "n < 10")
    case True
    then show ?thesis by (subst show_nat.simps) (simp add: digit_val_digit_char)
  next
    case False
    with 1 show ?thesis by (subst show_nat.simps) (simp add: digit_val_digit_char)
  qed
qed

lemma read_nat_show_nat: "read_nat (show_nat n) = Some n"
  using show_nat_digits [of n] by (simp add: read_nat_def show_nat_value)

lemma is_digit_not_minus: "is_digit c \<Longrightarrow> c \<noteq> CHR ''-''"
  by (auto simp: is_digit_def)

lemma read_int_show_int: "read_int (show_int i) = Some i"
proof (cases "i < 0")
  case True
  then show ?thesis by (simp add: show_int_def read_int_def read_nat_show_nat)
next
  case False
  obtain c r where s: "show_nat (nat i) = c # r"
    using show_nat_digits [of "nat i"] by (cases "show_nat (nat i)") auto
  then have "c \<noteq> CHR ''-''"
    using show_nat_digits [of "nat i"] by (auto dest: is_digit_not_minus)
  with False s show ?thesis
    using read_nat_show_nat [of "nat i"] by (simp add: show_int_def read_int_def)
qed

lemma is_digit_not_nl: "is_digit c \<Longrightarrow> c \<noteq> nl"
  by (auto simp: is_digit_def nl_def)

lemma show_int_no_nl: "nl \<notin> set (show_int i)"
  using show_nat_digits [of "nat i"] show_nat_digits [of "nat (- i)"]
  by (auto simp: show_int_def list_all_iff nl_def dest: is_digit_not_nl [unfolded nl_def])

lemma hex_digit_not_nl: "hex_digit d \<noteq> nl" if "d < 16"
proof -
  have "(of_char (hex_digit d) :: nat) = (if d < 10 then 48 + d else 87 + d)"
    using that by (simp add: hex_digit_def)
  then show ?thesis using that by (auto simp: nl_def split: if_splits)
qed

lemma json_escape_char_no_nl: "nl \<notin> set (json_escape_char c)"
proof -
  have "(of_char c :: nat) div 16 < 16"
    using nat_of_char_less_256 [of c] by (simp add: less_mult_imp_div_less)
  then have h1: "hex_digit (of_char c div 16) \<noteq> nl"
    by (rule hex_digit_not_nl)
  have h2: "hex_digit (of_char c mod 16) \<noteq> nl"
    by (rule hex_digit_not_nl) simp
  have k: "bs \<noteq> nl" "dq \<noteq> nl" "CHR ''n'' \<noteq> nl" "CHR ''r'' \<noteq> nl" "CHR ''t'' \<noteq> nl"
    "CHR ''b'' \<noteq> nl" "CHR ''f'' \<noteq> nl" "CHR ''u'' \<noteq> nl" "CHR ''0'' \<noteq> nl"
    by (simp_all add: bs_def dq_def nl_def)
  show ?thesis
    unfolding json_escape_char_def using h1 h2 k by auto
qed

lemma set_join: "set (join sep xs) \<subseteq> set sep \<union> \<Union> (set ` set xs)"
  by (induction sep xs rule: join.induct) auto

lemma json_dumps_no_nl: "nl \<notin> set (json_dumps v)"
proof (induction v)
  case (PyInt n)
  show ?case by (simp add: show_int_no_nl)
next
  case (PyStr s)
  show ?case by (auto simp: json_escape_char_no_nl) (simp add: nl_def dq_def)
next
  case (PyList xs)
  have "nl \<notin> set (join '', '' (map json_dumps xs))"
    using set_join [of "'', ''" "map json_dumps xs"] PyList by (auto simp: nl_def)
  then show ?case by (simp add: nl_def)
qed

section \<open>The sample run, evaluated\<close>

lemma sample_search:
  "re_search sample_source = Some ([nl] @ ''    '' @ sample_text1 @ '','' @ [nl] @ ''    '' @ sample_text2)"
  by (simp add: sample_source_def sample_text1_def sample_text2_def nl_def)

lemma sample_split:
  "re_split (strip ([nl] @ ''    '' @ sample_text1 @ '','' @ [nl] @ ''    '' @ sample_text2))
    = [butlast sample_text1, tl sample_text2]"
  by (simp add: sample_text1_def sample_text2_def nl_def strip_def is_space_def match_boundary_def)

lemma sample_repair:
  "repair (butlast sample_text1) = sample_text1" "repair (tl sample_text2) = sample_text2"
  by (simp_all add: sample_text1_def sample_text2_def repair_def strip_def is_space_def
      add_open_def add_close_def endswith_def)

section \<open>Properties of the re-emitter\<close>

lemma js_q_Inr:
  "js_q q = Inr line \<longleftrightarrow>
     (\<exists>a cat qt ex opts.
        q ''answer'' = Some a \<and> q ''cat'' = Some (PyStr cat) \<and> q ''q'' = Some (PyStr qt)
        \<and> q ''explain'' = Some (PyStr ex) \<and> q ''options'' = Some opts
        \<and> line = template (replace_quote cat) (replace_quote qt) (json_dumps opts)
             (answer_str a) (replace_quote ex))"
  unfolding js_q_def escaped_field_def getitem_def bind_exn_def
  by (auto split: option.splits pyval.splits)

lemma js_q_fields:
  assumes "q ''answer'' = Some a" "q ''cat'' = Some (PyStr cat)" "q ''q'' = Some (PyStr qt)"
    "q ''explain'' = Some (PyStr ex)" "q ''options'' = Some opts"
  shows "js_q q = Inr (template (replace_quote cat) (replace_quote qt) (json_dumps opts)
             (answer_str a) (replace_quote ex))"
  using assms by (simp add: js_q_Inr)

lemma js_questions_Inr:
  "js_questions qs = Inr js \<longleftrightarrow> map js_q qs = map Inr js"
proof (induction qs arbitrary: js)
  case Nil
  show ?case by auto
next
  case (Cons q qs)
  show ?case
  proof (cases "js_q q")
    case (Inl e)
    then show ?thesis by (auto simp: bind_exn_def)
  next
    case (Inr l)
    show ?thesis
    proof (cases "js_questions qs")
      case (Inl e)
      with Cons Inr show ?thesis by (auto simp: bind_exn_def)
    next
      case r: (Inr ls)
      with Cons [of ls] Inr Cons show ?thesis by (auto simp: bind_exn_def)
    qed
  qed
qed

lemma replace_quote_map:
  "replace_quote s = concat (map (\<lambda>c. if c = dq then [bs, dq] else [c]) s)"
  by (induction s) simp_all

section \<open>The sample run, emitted\<close>

text \<open>
  Claim C4. When the pattern of the extractor does not match the source text, the run
  prints \<open>Could not find test5_questions array\<close> and ends at once with \<open>SystemExit\<close> of
  status 1. The trace holds the read of the source and that one line, so the destination
  file is not read and not written, and no file changes.
\<close>

lemma sample_eval_simps:
  "sample_eval sample_text1 = Inr sample_q1" "sample_eval sample_text2 = Inr sample_q2"
  by (simp_all add: sample_eval_def) (simp add: sample_text1_def sample_text2_def)

lemma sample_parse:
  "parse_questions sample_eval
     ([nl] @ ''    '' @ sample_text1 @ '','' @ [nl] @ ''    '' @ sample_text2)
   = ([sample_q1, sample_q2], [])"
  unfolding parse_questions_def sample_split
  by (simp add: sample_repair sample_eval_simps)

lemma show_nat_small: "n < 10 \<Longrightarrow> show_nat n = [digit_char n]"
  by (subst show_nat.simps) simp

lemma sample_js_q: "js_q sample_q1 = Inr sample_line1" "js_q sample_q2 = Inr sample_line2"
proof -
  have d: "show_int 0 = ''0''" "show_int 1 = ''1''"
    by code_simp+
  have e: "json_escape_char CHR ''x'' = ''x''" "json_escape_char CHR ''y'' = ''y''"
    "json_escape_char CHR ''m'' = ''m''" "json_escape_char CHR ''n'' = ''n''"
    by (simp_all add: json_escape_char_def dq_def bs_def nl_def)
  show "js_q sample_q1 = Inr sample_line1"
    by (simp add: js_q_def sample_q1_def escaped_field_def getitem_def bind_exn_def
        template_def sample_line1_def d e dq_def bs_def)
  show "js_q sample_q2 = Inr sample_line2"
    by (simp add: js_q_def sample_q2_def escaped_field_def getitem_def bind_exn_def
        template_def sample_line2_def d e dq_def bs_def)
qed

lemma sample_js_questions: "js_questions [sample_q1, sample_q2] = Inr [sample_line1, sample_line2]"
  by (simp add: sample_js_q bind_exn_def)

lemma sample_files:
  "files (sample_world s h) source_name = Some s" "files (sample_world s h) html_name = Some h"
  by (simp_all add: sample_world_def source_name_def html_name_def)

section \<open>No newline in an emitted line\<close>

lemma template_no_nl:
  assumes "nl \<notin> set a" "nl \<notin> set b" "nl \<notin> set c" "nl \<notin> set d" "nl \<notin> set e"
  shows "nl \<notin> set (template a b c d e)"
  using assms by (simp add: template_def nl_def)

lemma replace_quote_no_nl: "nl \<notin> set s \<Longrightarrow> nl \<notin> set (replace_quote s)"
  by (induction s) (auto simp: nl_def bs_def dq_def)

lemma answer_str_no_nl: "(case a of PyStr s \<Rightarrow> nl \<notin> set s | _ \<Rightarrow> True) \<Longrightarrow> nl \<notin> set (answer_str a)"
  using json_dumps_no_nl [of a] by (cases a) (simp_all add: show_int_no_nl)

lemma js_q_no_nl:
  assumes "js_q q = Inr line" "text_fields_one_line q"
  shows "nl \<notin> set line"
proof -
  from assms(1) obtain a cat qt ex opts where
    f: "q ''answer'' = Some a" "q ''cat'' = Some (PyStr cat)" "q ''q'' = Some (PyStr qt)"
      "q ''explain'' = Some (PyStr ex)" "q ''options'' = Some opts"
    and l: "line = template (replace_quote cat) (replace_quote qt) (json_dumps opts)
             (answer_str a) (replace_quote ex)"
    unfolding js_q_Inr by blast
  from assms(2) f have "nl \<notin> set cat" "nl \<notin> set qt" "nl \<notin> set ex"
    "case a of PyStr s \<Rightarrow> nl \<notin> set s | _ \<Rightarrow> True"
    by (simp_all add: text_fields_one_line_def split: pyval.splits)
  then show ?thesis
    unfolding l
    by (intro template_no_nl replace_quote_no_nl answer_str_no_nl json_dumps_no_nl)
qed

lemma js_questions_no_nl:
  assumes "js_questions qs = Inr js" "list_all text_fields_one_line qs"
  shows "\<forall>l \<in> set js. nl \<notin> set l"
proof -
  from assms(1) have m: "map js_q qs = map Inr js" by (simp add: js_questions_Inr)
  then have len: "length qs = length js" by (rule map_eq_imp_length_eq)
  show ?thesis
  proof
    fix l assume "l \<in> set js"
    then obtain i where i: "i < length js" "js ! i = l" by (auto simp: in_set_conv_nth)
    with m len have "js_q (qs ! i) = Inr l"
      by (metis nth_map)
    moreover from assms(2) i len have "text_fields_one_line (qs ! i)"
      by (simp add: list_all_length)
    ultimately show "nl \<notin> set l" by (rule js_q_no_nl)
  qed
qed

lemma js_questions_length: "js_questions qs = Inr js \<Longrightarrow> length js = length qs"
  by (simp add: js_questions_Inr) (metis length_map)

text \<open>
  Claim C3, amended. Let \<open>N \<ge> 1\<close> records parse, let them all be re-emitted, and let their
  text fields hold no newline. If the destination has more than 773 lines, or is empty,
  or ends with a newline, then the lines of the rewritten file are the first 773 old
  lines (all of them when there are fewer), then one line per record, then the other old
  lines: the block stands immediately before the old line of index 773 where there is
  one, and the file has exactly \<open>N\<close> lines more than before.
\<close>

lemma wf_lines_Cons: "is_line l \<Longrightarrow> last l = nl \<Longrightarrow> wf_lines ls \<Longrightarrow> wf_lines (l # ls)"
  by (cases ls) simp_all

lemma wf_lines_replicate:
  "is_line l \<Longrightarrow> last l = nl \<Longrightarrow> is_line m \<Longrightarrow> wf_lines (replicate n l @ [m])"
  by (induction n) (simp_all add: wf_lines_Cons)

lemma sample_html_lines:
  "readlines sample_html = replicate 773 (''<p>'' @ [nl]) @ [''];'' @ [nl]]"
proof -
  have "wf_lines (replicate 773 (''<p>'' @ [nl]) @ [''];'' @ [nl]])"
    by (rule wf_lines_replicate) (simp_all add: is_line_def nl_def)
  then have "readlines (concat (replicate 773 (''<p>'' @ [nl]) @ [''];'' @ [nl]]))
      = replicate 773 (''<p>'' @ [nl]) @ [''];'' @ [nl]]"
    by (rule readlines_concat)
  then show ?thesis by (simp add: sample_html_def)
qed

lemma sample_one_line: "list_all text_fields_one_line [sample_q1, sample_q2]"
  by (simp add: text_fields_one_line_def sample_q1_def sample_q2_def nl_def cr_def)

lemma sample_lines_no_nl: "nl \<notin> set sample_line1" "nl \<notin> set sample_line2"
  by (simp_all add: sample_line1_def sample_line2_def nl_def)

text \<open>
  Counterexample to C3 as it is stated: the destination is the one line \<open>abc\<close> with no
  newline at its end. Two records parse and their text fields hold no newline, and the
  file has one line before the run and two lines after it: the first record's text
  continues the old last line, so the count grows by one, not by two.
\<close>

text \<open>
  Counterexample to C9 as it is stated: the destination is the one line \<open>abc\<close> with no
  newline at its end. After the run that line is not a line of the file any more: the
  first line of the file is \<open>abc\<close> followed by the first record.
\<close>

section \<open>Escaping of the text fields\<close>

text \<open>
  Claim C2. The line emitted for a record holds the \<open>cat\<close>, \<open>q\<close> and \<open>explain\<close> texts
  between double quotes, each with a backslash in front of every double quote and every
  other character as it is: \<open>replace_quote\<close>, the script's escaping, is
  \<open>escape_quotes_only\<close>. A backslash, a newline and a control character are not escaped.
\<close>

theorem only_quotes_escaped:
  assumes "js_q q = Inr line"
  shows "\<exists>cat question_text explain_text opts a.
      q ''cat'' = Some (PyStr cat) \<and> q ''q'' = Some (PyStr question_text)
      \<and> q ''explain'' = Some (PyStr explain_text)
      \<and> q ''options'' = Some opts \<and> q ''answer'' = Some a
      \<and> line = ''      { cat: \"'' @ escape_quotes_only cat
          @ ''\", q: \"'' @ escape_quotes_only question_text
          @ ''\", options: '' @ json_dumps opts @ '', answer: '' @ answer_str a
          @ '', explain: \"'' @ escape_quotes_only explain_text @ ''\" }''"
proof -
  have e: "replace_quote s = escape_quotes_only s" for s
    by (simp add: escape_quotes_only_def replace_quote_map)
  from assms show ?thesis
    unfolding js_q_Inr e template_def by blast
qed

lemma sample_js_q3: "js_q sample_q3 = Inr sample_line3"
proof -
  have d: "show_int 1 = ''1''"
    by code_simp
  show ?thesis
    by (simp add: js_q_def sample_q3_def escaped_field_def getitem_def bind_exn_def
        template_def sample_line3_def d dq_def bs_def nl_def)
qed

text \<open>
  Witness for C2: a record with quotes, a backslash and a newline in its texts.
\<close>

theorem only_quotes_escaped_witness:
  "js_q sample_q3 = Inr sample_line3
   \<and> escape_quotes_only ''a\"b'' = ''a'' @ [bs] @ ''\"b''
   \<and> escape_quotes_only [bs, CHR ''n'', nl] = [bs, CHR ''n'', nl]
   \<and> (\<exists>opts a. sample_line3 = ''      { cat: \"'' @ escape_quotes_only ''a\"b''
          @ ''\", q: \"'' @ escape_quotes_only [bs, CHR ''n'', nl]
          @ ''\", options: '' @ json_dumps opts @ '', answer: '' @ answer_str a
          @ '', explain: \"'' @ escape_quotes_only ''\"'' @ ''\" }'')"
proof -
  from only_quotes_escaped [OF sample_js_q3]
  obtain cat question_text explain_text opts a where
    f: "sample_q3 ''cat'' = Some (PyStr cat)" "sample_q3 ''q'' = Some (PyStr question_text)"
      "sample_q3 ''explain'' = Some (PyStr explain_text)"
    and l: "sample_line3 = ''      { cat: \"'' @ escape_quotes_only cat
          @ ''\", q: \"'' @ escape_quotes_only question_text
          @ ''\", options: '' @ json_dumps opts @ '', answer: '' @ answer_str a
          @ '', explain: \"'' @ escape_quotes_only explain_text @ ''\" }''"
    by blast
  from f have "cat = ''a\"b''" "question_text = [bs, CHR ''n'', nl]" "explain_text = ''\"''"
    by (simp_all add: sample_q3_def)
  with l have "\<exists>opts a. sample_line3 = ''      { cat: \"'' @ escape_quotes_only ''a\"b''
          @ ''\", q: \"'' @ escape_quotes_only [bs, CHR ''n'', nl]
          @ ''\", options: '' @ json_dumps opts @ '', answer: '' @ answer_str a
          @ '', explain: \"'' @ escape_quotes_only ''\"'' @ ''\" }''"
    by blast
  moreover have "escape_quotes_only ''a\"b'' = ''a'' @ [bs] @ ''\"b''"
    "escape_quotes_only [bs, CHR ''n'', nl] = [bs, CHR ''n'', nl]"
    by (simp_all add: escape_quotes_only_def dq_def bs_def nl_def)
  ultimately show ?thesis using sample_js_q3 by (intro conjI)
qed

section \<open>Properties of the splitting\<close>

lemma after_prefix_Some: "after_prefix p s = Some r \<longleftrightarrow> s = p @ r"
  by (induction p s rule: after_prefix.induct) auto

lemma after_prefix_append: "after_prefix p (p @ r) = Some r"
  by (simp add: after_prefix_Some)

lemma match_boundary_whole:
  "match_boundary sep = Some [] \<longleftrightarrow>
     (\<exists>ws. sep = ''},'' @ ws @ ''{'' \<and> (\<forall>c \<in> set ws. is_space c) \<and> nl \<in> set ws)"
proof
  assume "match_boundary sep = Some []"
  then obtain r where r: "sep = ''},'' @ r" and n: "nl \<in> set (takeWhile is_space r)"
    and d: "dropWhile is_space r = ''{''"
    by (auto simp: match_boundary_def after_prefix_Some split: option.splits if_splits list.splits)
  have "r = takeWhile is_space r @ dropWhile is_space r" by simp
  with d have "r = takeWhile is_space r @ ''{''" by simp
  moreover have "\<forall>c \<in> set (takeWhile is_space r). is_space c"
    by (auto dest: set_takeWhileD)
  ultimately show "\<exists>ws. sep = ''},'' @ ws @ ''{'' \<and> (\<forall>c \<in> set ws. is_space c) \<and> nl \<in> set ws"
    using r n by blast
next
  assume "\<exists>ws. sep = ''},'' @ ws @ ''{'' \<and> (\<forall>c \<in> set ws. is_space c) \<and> nl \<in> set ws"
  then obtain ws where s: "sep = ''},'' @ ws @ ''{''" and w: "\<forall>c \<in> set ws. is_space c" "nl \<in> set ws"
    by blast
  from w have "takeWhile is_space (ws @ ''{'') = ws" "dropWhile is_space (ws @ ''{'') = ''{''"
    by (simp_all add: takeWhile_append dropWhile_append brace_not_space)
  with w s show "match_boundary sep = Some []"
    by (simp add: match_boundary_def)
qed

lemma match_boundary_sep_append:
  assumes "match_boundary sep = Some []"
  shows "match_boundary (sep @ rest) = Some rest"
proof -
  from assms obtain ws where s: "sep = ''},'' @ ws @ ''{''" and w: "\<forall>c \<in> set ws. is_space c" "nl \<in> set ws"
    unfolding match_boundary_whole by blast
  from w have "takeWhile is_space (ws @ CHR ''{'' # rest) = ws"
    "dropWhile is_space (ws @ CHR ''{'' # rest) = CHR ''{'' # rest"
    by (simp_all add: takeWhile_append dropWhile_append brace_not_space)
  with w s show ?thesis
    by (simp add: match_boundary_def)
qed

lemma sep_starts: "match_boundary sep = Some [] \<Longrightarrow> \<exists>t. sep = CHR ''}'' # t"
  unfolding match_boundary_whole by auto

lemma match_boundary_none_append:
  assumes "match_boundary u = None" "u \<noteq> []"
  shows "match_boundary (u @ CHR ''}'' # t) = None"
proof (cases "after_prefix ''},'' u")
  case None
  then show ?thesis
  proof (cases u)
    case Nil
    with assms show ?thesis by simp
  next
    case (Cons a u')
    with None show ?thesis
      by (cases u') (auto simp: match_boundary_def split: if_splits)
  qed
next
  case (Some r)
  then have u: "u = ''},'' @ r" by (simp add: after_prefix_Some)
  show ?thesis
  proof (cases "\<forall>c \<in> set r. is_space c")
    case True
    then have "dropWhile is_space (r @ CHR ''}'' # t) = CHR ''}'' # t"
      by (simp add: dropWhile_append brace_not_space)
    then show ?thesis
      by (simp add: u match_boundary_def)
  next
    case False
    then have "takeWhile is_space (r @ CHR ''}'' # t) = takeWhile is_space r"
      "dropWhile is_space (r @ CHR ''}'' # t) = dropWhile is_space r @ CHR ''}'' # t"
      "dropWhile is_space r \<noteq> []"
      by (auto simp: takeWhile_append dropWhile_append dropWhile_eq_Nil_conv)
    with assms(1) show ?thesis
      by (auto simp: u match_boundary_def split: if_splits list.splits)
  qed
qed

lemma re_split_not_Nil: "re_split s \<noteq> []"
  by (induction s rule: re_split.induct) (auto split: option.splits list.splits)

lemma re_split_single_Cons:
  "re_split (c # p) = [c # p] \<longleftrightarrow> match_boundary (c # p) = None \<and> re_split p = [p]"
  using re_split_not_Nil [of p]
  by (auto split: option.splits list.splits)

lemma re_split_fragment:
  assumes "re_split p = [p]" "match_boundary sep = Some []"
  shows "re_split (p @ sep @ rest) = p # re_split rest"
  using assms(1)
proof (induction p)
  case Nil
  from assms(2) obtain t where "sep = CHR ''}'' # t" by (auto dest: sep_starts)
  then show ?case
    using match_boundary_sep_append [OF assms(2), of rest] by simp
next
  case (Cons c p)
  then have m: "match_boundary (c # p) = None" and s: "re_split p = [p]"
    by (simp_all only: re_split_single_Cons)
  from assms(2) obtain t where t: "sep = CHR ''}'' # t" by (auto dest: sep_starts)
  have "match_boundary ((c # p) @ CHR ''}'' # (t @ rest)) = None"
    using m by (rule match_boundary_none_append) simp
  then have "match_boundary (c # (p @ sep @ rest)) = None"
    by (simp add: t)
  moreover have "re_split (p @ sep @ rest) = p # re_split rest"
    using s by (rule Cons.IH)
  ultimately show ?case by simp
qed

lemma no_boundary_re_split: "no_boundary p \<Longrightarrow> re_split p = [p]"
  by (induction p) simp_all

lemma re_split_assemble:
  assumes "list_all no_boundary (fragment # map snd later)"
    and "list_all is_separator (map fst later)"
  shows "re_split (assemble fragment later) = fragment # map snd later"
  using assms
proof (induction fragment later rule: assemble.induct)
  case (1 fragment)
  then show ?case by (simp add: no_boundary_re_split)
next
  case (2 fragment sep next_fragment later)
  then have "re_split fragment = [fragment]" "match_boundary sep = Some []"
    by (simp_all add: no_boundary_re_split is_separator_def)
  then have "re_split (fragment @ sep @ assemble next_fragment later)
      = fragment # re_split (assemble next_fragment later)"
    by (rule re_split_fragment)
  with 2 show ?case by simp
qed

section \<open>Properties of the parsing loop\<close>

lemma parse_loop_all:
  "list_all2 (\<lambda>f d. ev (repair f) = Inr d) fs ds \<Longrightarrow> parse_loop ev i fs = (ds, [])"
  by (induction fs ds arbitrary: i rule: list_all2_induct) simp_all



text \<open>
  Claim C6. Let the stripped array body be made of fragments separated by boundary
  separators, let no fragment hold a boundary itself, and let every repaired fragment
  evaluate to a record. Then the parser returns exactly these records, one per fragment
  and in the order of the fragments, and reports nothing.
\<close>

theorem well_formed_fragments_all_parsed:
  assumes "strip array_content = assemble fragment later"
    and "list_all no_boundary (fragment # map snd later)"
    and "list_all is_separator (map fst later)"
    and "list_all2 (\<lambda>f q_dict. ev (repair f) = Inr q_dict) (fragment # map snd later) questions"
  shows "parse_questions ev array_content = (questions, [])
    \<and> length questions = length (fragment # map snd later)"
proof -
  have "re_split (strip array_content) = fragment # map snd later"
    unfolding assms(1) using assms(2,3) by (rule re_split_assemble)
  then have "parse_questions ev array_content = (questions, [])"
    using parse_loop_all [OF assms(4)] by (simp add: parse_questions_def)
  moreover have "length questions = length (fragment # map snd later)"
    using list_all2_lengthD [OF assms(4)] by simp
  ultimately show ?thesis by simp
qed

text \<open>
  Claim C5. Let the fragment of index \<open>k\<close> fail to evaluate, with the message \<open>e\<close>, and
  let the records of the other fragments be valid, so that each of them is re-emitted.
  Then the parsed sequence is the records of the fragments that evaluate, in order, without
  the failed one; the trace holds the two lines of its report, with the number \<open>k + 1\<close>
  and the first 200 characters of the repaired fragment; the lines spliced into the
  destination are the lines of the parsed records only; and the run completes.
\<close>

section \<open>The sample sources, parsed\<close>

lemma sample_fragments_no_boundary:
  "no_boundary (butlast sample_text1)" "no_boundary (tl sample_text2)"
  by (simp_all add: sample_text1_def sample_text2_def match_boundary_def)

text \<open>
  Witness for C6: the array body of the sample source, two fragments and one separator.
\<close>

theorem well_formed_fragments_all_parsed_witness:
  "strip sample_body = assemble (butlast sample_text1) [(''},'' @ [nl] @ ''    {'', tl sample_text2)]
   \<and> parse_questions sample_eval sample_body = ([sample_q1, sample_q2], [])
   \<and> length [sample_q1, sample_q2] = length [butlast sample_text1, tl sample_text2]"
proof -
  have a: "strip sample_body
      = assemble (butlast sample_text1) [(''},'' @ [nl] @ ''    {'', tl sample_text2)]"
    by (simp add: sample_body_def sample_text1_def sample_text2_def strip_def is_space_def nl_def)
  have b: "list_all no_boundary (butlast sample_text1 # map snd [(''},'' @ [nl] @ ''    {'', tl sample_text2)])"
    by (simp add: sample_fragments_no_boundary)
  have c: "list_all is_separator (map fst [(''},'' @ [nl] @ ''    {'', tl sample_text2)])"
    by (simp add: is_separator_def match_boundary_def is_space_def nl_def)
  have d: "list_all2 (\<lambda>f q_dict. sample_eval (repair f) = Inr q_dict)
      (butlast sample_text1 # map snd [(''},'' @ [nl] @ ''    {'', tl sample_text2)])
      [sample_q1, sample_q2]"
    by (simp add: sample_repair sample_eval_simps)
  from well_formed_fragments_all_parsed [OF a b c d] a show ?thesis by simp
qed






section \<open>Reading back what the re-emitter writes\<close>

lemma read_quoted_quote: "read_quoted (dq # rest) = Some ([], rest)"
  by (cases rest) simp_all

lemma read_quoted_plain:
  "c \<noteq> dq \<Longrightarrow> c \<noteq> bs \<Longrightarrow> t \<noteq> [] \<Longrightarrow>
   read_quoted (c # t) = map_option (apfst ((#) c)) (read_quoted t)"
  by (cases t) simp_all

lemma read_quoted_escaped:
  "read_quoted (bs # dq # t) = map_option (apfst ((#) dq)) (read_quoted t)"
  by (simp add: bs_def dq_def)

lemma read_quoted_replace_quote:
  "bs \<notin> set s \<Longrightarrow> read_quoted (replace_quote s @ dq # rest) = Some (s, rest)"
proof (induction s)
  case Nil
  show ?case by (simp add: read_quoted_quote)
next
  case (Cons c s)
  then have IH: "read_quoted (replace_quote s @ dq # rest) = Some (s, rest)" and c: "c \<noteq> bs"
    by auto
  show ?case
  proof (cases "c = dq")
    case True
    then show ?thesis using IH c by (auto simp: read_quoted_escaped)
  next
    case False
    then have "read_quoted (c # (replace_quote s @ dq # rest))
        = map_option (apfst ((#) c)) (read_quoted (replace_quote s @ dq # rest))"
      using c by (intro read_quoted_plain) simp_all
    with False IH show ?thesis by simp
  qed
qed

lemma of_char_hex_digit:
  "d < 16 \<Longrightarrow> (of_char (hex_digit d) :: nat) = (if d < 10 then 48 + d else 87 + d)"
  by (simp add: hex_digit_def)

lemma hex_val_hex_digit: "d < 16 \<Longrightarrow> hex_val (hex_digit d) = Some d"
  by (simp add: hex_val_def is_digit_def of_char_hex_digit)

lemma read_json_string_char:
  "read_json_string (json_escape_char c @ t) = map_option (apfst ((#) c)) (read_json_string t)"
proof -
  let ?n = "of_char c :: nat"
  have d: "?n div 16 < 16"
    using nat_of_char_less_256 [of c] by (simp add: less_mult_imp_div_less)
  have h: "hex_val (hex_digit (?n div 16)) = Some (?n div 16)"
    "hex_val (hex_digit (?n mod 16)) = Some (?n mod 16)"
    using d by (simp_all add: hex_val_hex_digit)
  have c: "char_of (16 * (?n div 16) + ?n mod 16) = c"
    by simp
  have u: "read_json_string (bs # CHR ''u'' # CHR ''0'' # CHR ''0''
        # hex_digit (?n div 16) # hex_digit (?n mod 16) # t)
      = map_option (apfst ((#) c)) (read_json_string t)"
    using h c by (simp add: bs_def dq_def)
  have e: "read_json_string (bs # x # t) = map_option (apfst ((#) y)) (read_json_string t)"
    if "unescape_char x = Some y" "x \<noteq> CHR ''u''" for x y
    using that by (simp add: bs_def dq_def)
  have k: "unescape_char dq = Some dq" "unescape_char bs = Some bs"
    "unescape_char CHR ''n'' = Some nl" "unescape_char CHR ''r'' = Some CHR 0x0D"
    "unescape_char CHR ''t'' = Some CHR 0x09" "unescape_char CHR ''b'' = Some CHR 0x08"
    "unescape_char CHR ''f'' = Some CHR 0x0C"
    by (simp_all add: unescape_char_def dq_def bs_def)
  have n: "dq \<noteq> CHR ''u''" "bs \<noteq> CHR ''u''"
    by (simp_all add: dq_def bs_def)
  show ?thesis
  proof (cases "c = dq \<or> c = bs \<or> c = nl \<or> c = CHR 0x0D \<or> c = CHR 0x09 \<or> c = CHR 0x08 \<or> c = CHR 0x0C")
    case True
    then show ?thesis
      using e [OF k(1) n(1)] e [OF k(2) n(2)] e [OF k(3)] e [OF k(4)] e [OF k(5)] e [OF k(6)] e [OF k(7)]
      by (auto simp: json_escape_char_def dq_def bs_def nl_def)
  next
    case False
    show ?thesis
    proof (cases "?n < 0x20 \<or> 0x7E < ?n")
      case True
      with False u show ?thesis by (simp add: json_escape_char_def)
    next
      case plain: False
      with False show ?thesis by (simp add: json_escape_char_def)
    qed
  qed
qed

lemma read_json_string_escaped:
  "read_json_string (concat (map json_escape_char s) @ dq # rest) = Some (s, rest)"
  by (induction s) (simp_all add: read_json_string_char)

lemma read_json_string_dumps:
  "read_json_string (tl (json_dumps (PyStr s)) @ rest) = Some (s, rest)"
  using read_json_string_escaped [of s rest] by simp

lemma json_dumps_PyStr_hd: "\<exists>t. json_dumps (PyStr s) = dq # t"
  by simp

lemma join_strs_hd:
  "xs \<noteq> [] \<Longrightarrow> \<exists>t. join '', '' (map json_dumps (map PyStr xs)) = dq # t"
  by (induction "'', ''" "map json_dumps (map PyStr xs)" arbitrary: xs rule: join.induct) auto

lemma read_strings_items:
  "xs \<noteq> [] \<Longrightarrow>
   read_strings (join '', '' (map json_dumps (map PyStr xs)) @ CHR '']'' # rest) = Some (xs, rest)"
proof (induction xs)
  case Nil
  then show ?case by simp
next
  case (Cons x xs)
  show ?case
  proof (cases xs)
    case Nil
    have "read_json_string (concat (map json_escape_char x) @ dq # CHR '']'' # rest)
        = Some (x, CHR '']'' # rest)"
      by (rule read_json_string_escaped)
    then show ?thesis
      using Nil by (subst read_strings.simps) simp
  next
    case (Cons y ys)
    then obtain t where t: "join '', '' (map json_dumps (map PyStr xs)) = dq # t"
      using join_strs_hd [of xs] by auto
    have IH: "read_strings (join '', '' (map json_dumps (map PyStr xs)) @ CHR '']'' # rest)
        = Some (xs, rest)"
      using Cons Cons.IH by simp
    have "read_json_string (concat (map json_escape_char x)
          @ dq # ('', '' @ join '', '' (map json_dumps (map PyStr xs)) @ CHR '']'' # rest))
        = Some (x, '', '' @ join '', '' (map json_dumps (map PyStr xs)) @ CHR '']'' # rest)"
      by (rule read_json_string_escaped)
    moreover have "dropWhile (\<lambda>c. c = CHR '' '')
          (CHR '' '' # join '', '' (map json_dumps (map PyStr xs)) @ CHR '']'' # rest)
        = join '', '' (map json_dumps (map PyStr xs)) @ CHR '']'' # rest"
      by (simp only: t) (simp add: dq_def)
    ultimately show ?thesis
      using Cons IH by (subst read_strings.simps) simp
  qed
qed

lemma read_string_array_dumps:
  "read_string_array (json_dumps (PyList (map PyStr xs)) @ rest) = Some (xs, rest)"
proof (cases xs)
  case Nil
  then show ?thesis by (simp add: read_string_array_def)
next
  case (Cons y ys)
  then obtain t where t: "join '', '' (map json_dumps (map PyStr xs)) = dq # t"
    using join_strs_hd [of xs] by auto
  have "read_strings (join '', '' (map json_dumps (map PyStr xs)) @ CHR '']'' # rest) = Some (xs, rest)"
    using Cons by (intro read_strings_items) simp
  then show ?thesis
    using t by (simp add: read_string_array_def dq_def)
qed

lemma show_nat_numeral_chars: "list_all is_numeral_char (show_nat n)"
  using show_nat_digits [of n] by (simp add: list_all_iff is_numeral_char_def)

lemma show_int_numeral_chars: "list_all is_numeral_char (show_int i)"
  using show_nat_numeral_chars by (simp add: show_int_def is_numeral_char_def)

lemma show_int_hd: "\<exists>c t. show_int i = c # t \<and> is_numeral_char c"
  using show_int_numeral_chars [of i] show_nat_digits
  by (cases "show_int i") (auto simp: show_int_def split: if_splits)

lemma read_int_prefix_show_int:
  assumes "rest = [] \<or> \<not> is_numeral_char (hd rest)"
  shows "read_int_prefix (show_int i @ rest) = Some (i, rest)"
proof -
  have a: "\<forall>c \<in> set (show_int i). is_numeral_char c"
    using show_int_numeral_chars [of i] by (simp add: list_all_iff)
  from assms have r: "takeWhile is_numeral_char rest = []" "dropWhile is_numeral_char rest = rest"
    by (cases rest; simp)+
  from a r have "takeWhile is_numeral_char (show_int i @ rest) = show_int i"
    "dropWhile is_numeral_char (show_int i @ rest) = rest"
    by (simp_all add: takeWhile_append dropWhile_append)
  then show ?thesis
    by (simp add: read_int_prefix_def read_int_show_int)
qed

lemma numeral_char_facts:
  "\<not> is_numeral_char CHR '']''" "\<not> is_numeral_char CHR '',''" "\<not> is_numeral_char CHR ''[''"
  "\<not> is_numeral_char CHR '' ''"
  by (simp_all add: is_numeral_char_def is_digit_def)

lemma join_ints_hd:
  "ns \<noteq> [] \<Longrightarrow> \<exists>c t. join '', '' (map json_dumps (map PyInt ns)) = c # t \<and> is_numeral_char c"
proof (induction ns)
  case Nil
  then show ?case by simp
next
  case (Cons n ns)
  obtain c t where "show_int n = c # t" "is_numeral_char c"
    using show_int_hd [of n] by blast
  then show ?case by (cases ns) auto
qed

lemma read_ints_items:
  "ns \<noteq> [] \<Longrightarrow>
   read_ints (join '', '' (map json_dumps (map PyInt ns)) @ CHR '']'' # rest) = Some (ns, rest)"
proof (induction ns)
  case Nil
  then show ?case by simp
next
  case (Cons n ns)
  show ?case
  proof (cases ns)
    case Nil
    have "read_int_prefix (show_int n @ CHR '']'' # rest) = Some (n, CHR '']'' # rest)"
      by (rule read_int_prefix_show_int) (simp add: numeral_char_facts)
    then show ?thesis
      using Nil by (subst read_ints.simps) simp
  next
    case (Cons m ms)
    then obtain c t where t: "join '', '' (map json_dumps (map PyInt ns)) = c # t"
      "is_numeral_char c"
      using join_ints_hd [of ns] by auto
    then have sp: "c \<noteq> CHR '' ''"
      using numeral_char_facts by auto
    have IH: "read_ints (join '', '' (map json_dumps (map PyInt ns)) @ CHR '']'' # rest)
        = Some (ns, rest)"
      using Cons Cons.IH by simp
    have "read_int_prefix (show_int n
          @ ('', '' @ join '', '' (map json_dumps (map PyInt ns)) @ CHR '']'' # rest))
        = Some (n, '', '' @ join '', '' (map json_dumps (map PyInt ns)) @ CHR '']'' # rest)"
      by (rule read_int_prefix_show_int) (simp add: numeral_char_facts)
    moreover have "dropWhile (\<lambda>c. c = CHR '' '')
          (CHR '' '' # join '', '' (map json_dumps (map PyInt ns)) @ CHR '']'' # rest)
        = join '', '' (map json_dumps (map PyInt ns)) @ CHR '']'' # rest"
      using sp by (simp only: t(1)) simp
    ultimately show ?thesis
      using Cons IH by (subst read_ints.simps) simp
  qed
qed

lemma read_int_array_dumps:
  "read_int_array (json_dumps (PyList (map PyInt ns)) @ rest) = Some (ns, rest)"
proof (cases ns)
  case Nil
  then show ?thesis by (simp add: read_int_array_def)
next
  case (Cons m ms)
  then obtain c t where t: "join '', '' (map json_dumps (map PyInt ns)) = c # t"
    "is_numeral_char c"
    using join_ints_hd [of ns] by auto
  then have "c \<noteq> CHR '']''" using numeral_char_facts by auto
  moreover have "read_ints (join '', '' (map json_dumps (map PyInt ns)) @ CHR '']'' # rest) = Some (ns, rest)"
    using Cons by (intro read_ints_items) simp
  ultimately show ?thesis
    using t by (simp add: read_int_array_def)
qed

lemma read_answer_int:
  assumes "rest = [] \<or> \<not> is_numeral_char (hd rest)"
  shows "read_answer (answer_str (PyInt n) @ rest) = Some (PyInt n, rest)"
proof -
  obtain c t where "show_int n = c # t" "is_numeral_char c"
    using show_int_hd [of n] by blast
  then have "\<not> startswith (show_int n @ rest) CHR ''[''"
    using numeral_char_facts by auto
  then show ?thesis
    using read_int_prefix_show_int [OF assms, of n] by (simp add: read_answer_def)
qed

lemma read_answer_list:
  "read_answer (answer_str (PyList (map PyInt ns)) @ rest) = Some (PyList (map PyInt ns), rest)"
  using read_int_array_dumps [of ns rest] by (simp add: read_answer_def)

section \<open>The round trip of a record\<close>

lemma reparse_template:
  assumes c: "\<And>rest. read_quoted (c' @ dq # rest) = Some (cat, rest)"
    and q: "\<And>rest. read_quoted (q' @ dq # rest) = Some (qt, rest)"
    and e: "\<And>rest. read_quoted (e' @ dq # rest) = Some (ex, rest)"
    and o: "\<And>rest. read_string_array (J @ rest) = Some (opts, rest)"
    and a: "\<And>rest. rest = [] \<or> \<not> is_numeral_char (hd rest) \<Longrightarrow> read_answer (A @ rest) = Some (ans, rest)"
  shows "reparse (template c' q' J A e') =
     Some [''cat'' \<mapsto> PyStr cat, ''q'' \<mapsto> PyStr qt, ''options'' \<mapsto> PyList (map PyStr opts),
           ''answer'' \<mapsto> ans, ''explain'' \<mapsto> PyStr ex]"
proof -
  have a': "read_answer (A @ CHR '','' # rest) = Some (ans, CHR '','' # rest)" for rest
    by (rule a) (simp add: numeral_char_facts)
  show ?thesis
    unfolding reparse_def template_def
    by (simp add: c [unfolded dq_def] q [unfolded dq_def] e [unfolded dq_def] o a')
qed

text \<open>
  Claim C8. Take a record whose \<open>cat\<close>, \<open>q\<close> and \<open>explain\<close> are texts without a backslash,
  whose options are a list of texts and whose answer is an integer or a list of integers.
  The record is re-emitted as one line, and reading that line back by the rules of the
  destination format gives a record with the same \<open>cat\<close>, \<open>q\<close>, \<open>options\<close>, \<open>answer\<close>
  and \<open>explain\<close>. The options and the texts may hold newlines.
\<close>

theorem emitted_line_reads_back:
  assumes "q ''cat'' = Some (PyStr cat)" and "q ''q'' = Some (PyStr question_text)"
    and "q ''explain'' = Some (PyStr explain_text)"
    and "q ''options'' = Some (PyList (map PyStr opts))"
    and "q ''answer'' = Some answer"
    and "answer = PyInt n \<or> answer = PyList (map PyInt ns)"
    and "bs \<notin> set cat" and "bs \<notin> set question_text" and "bs \<notin> set explain_text"
  shows "\<exists>line. js_q q = Inr line
    \<and> reparse line = Some (q |` {''cat'', ''q'', ''options'', ''answer'', ''explain''})"
proof -
  let ?line = "template (replace_quote cat) (replace_quote question_text)
      (json_dumps (PyList (map PyStr opts))) (answer_str answer) (replace_quote explain_text)"
  have l: "js_q q = Inr ?line"
    using assms(1,2,3,4,5) by (simp add: js_q_fields)
  have a: "read_answer (answer_str answer @ rest) = Some (answer, rest)"
    if "rest = [] \<or> \<not> is_numeral_char (hd rest)" for rest
    using assms(6) that read_answer_int [of rest n] read_answer_list [of ns rest] by auto
  have "reparse ?line =
     Some [''cat'' \<mapsto> PyStr cat, ''q'' \<mapsto> PyStr question_text,
           ''options'' \<mapsto> PyList (map PyStr opts),
           ''answer'' \<mapsto> answer, ''explain'' \<mapsto> PyStr explain_text]"
    using assms(7,8,9) a
    by (intro reparse_template read_quoted_replace_quote read_string_array_dumps)
  moreover have "[''cat'' \<mapsto> PyStr cat, ''q'' \<mapsto> PyStr question_text,
           ''options'' \<mapsto> PyList (map PyStr opts),
           ''answer'' \<mapsto> answer, ''explain'' \<mapsto> PyStr explain_text]
      = q |` {''cat'', ''q'', ''options'', ''answer'', ''explain''}"
    using assms(1-5) by (auto simp: restrict_map_def fun_eq_iff)
  ultimately show ?thesis using l by simp
qed

text \<open>
  Witness for C8: the second record of the sample run.
\<close>

theorem emitted_line_reads_back_witness:
  "js_q sample_q2 = Inr sample_line2
   \<and> reparse sample_line2 = Some (sample_q2 |` {''cat'', ''q'', ''options'', ''answer'', ''explain''})"
proof -
  have "\<exists>line. js_q sample_q2 = Inr line
    \<and> reparse line = Some (sample_q2 |` {''cat'', ''q'', ''options'', ''answer'', ''explain''})"
  proof (rule emitted_line_reads_back [where cat = "''B''" and question_text = "''Q2?''"
        and explain_text = "''E2''" and opts = "[''m'', ''n'']" and ns = "[0, 1]" and n = 0])
    show "sample_q2 ''answer'' = Some (PyList [PyInt 0, PyInt 1])"
      by (simp add: sample_q2_def)
  qed (simp_all add: sample_q2_def bs_def)
  then show ?thesis by (simp add: sample_js_q)
qed

section \<open>The answer field\<close>

text \<open>
  Claim C1. In the line emitted for a record the answer field is \<open>answer_str\<close> of the
  record's answer. For an integer this is its numeral, which reads back as the same
  integer. For a list it is a JSON array literal, the items in their order between
  brackets, separated by a comma and a space; for a list of integers it reads back as
  the same list.
\<close>

theorem answer_field_emitted:
  assumes "js_q q = Inr line" and "q ''answer'' = Some a"
  shows "(\<exists>cat question_text opts explain_text.
            line = template cat question_text opts (answer_str a) explain_text)
    \<and> (\<forall>n. a = PyInt n \<longrightarrow> answer_str a = show_int n \<and> read_int (answer_str a) = Some n)
    \<and> (\<forall>xs. a = PyList xs \<longrightarrow> answer_str a = ''['' @ join '', '' (map json_dumps xs) @ '']'')
    \<and> (\<forall>ns. a = PyList (map PyInt ns) \<longrightarrow> read_int_array (answer_str a) = Some (ns, []))"
proof -
  from assms have "\<exists>cat question_text opts explain_text.
            line = template cat question_text opts (answer_str a) explain_text"
    unfolding js_q_Inr by auto
  moreover have "read_int_array (answer_str (PyList (map PyInt ns))) = Some (ns, [])" for ns
    using read_int_array_dumps [of ns "[]"] by simp
  moreover have "answer_str (PyInt n) = show_int n \<and> read_int (answer_str (PyInt n)) = Some n" for n
    by (simp add: read_int_show_int)
  moreover have "answer_str (PyList xs) = ''['' @ join '', '' (map json_dumps xs) @ '']''" for xs
    by simp
  ultimately show ?thesis
    by blast
qed

text \<open>
  Witness for C1: the two records of the sample run, with the answers \<open>0\<close> and \<open>[0, 1]\<close>.
\<close>

theorem answer_field_emitted_witness:
  "js_q sample_q1 = Inr sample_line1 \<and> answer_str (PyInt 0) = ''0'' \<and> read_int ''0'' = Some 0
   \<and> js_q sample_q2 = Inr sample_line2 \<and> answer_str (PyList [PyInt 0, PyInt 1]) = ''[0, 1]''
   \<and> read_int_array ''[0, 1]'' = Some ([0, 1], [])"
proof -
  have a1: "sample_q1 ''answer'' = Some (PyInt 0)" and a2: "sample_q2 ''answer'' = Some (PyList [PyInt 0, PyInt 1])"
    by (simp_all add: sample_q1_def sample_q2_def)
  have s: "show_int 0 = ''0''" "show_int 1 = ''1''"
    by code_simp+
  note t1 = answer_field_emitted [OF sample_js_q(1) a1]
  note t2 = answer_field_emitted [OF sample_js_q(2) a2]
  have e1: "answer_str (PyInt 0) = ''0''"
    by (simp add: s)
  have e2: "answer_str (PyList [PyInt 0, PyInt 1]) = ''[0, 1]''"
    by (simp add: s)
  have m: "PyList [PyInt 0, PyInt 1] = PyList (map PyInt [0, 1])"
    by simp
  from t1 [THEN conjunct2, THEN conjunct1, THEN spec, of 0]
  have "read_int (answer_str (PyInt 0)) = Some 0" by simp
  then have r1: "read_int ''0'' = Some 0"
    unfolding e1 .
  from t2 [THEN conjunct2, THEN conjunct2, THEN conjunct2, THEN spec, of "[0, 1]"] m
  have "read_int_array (answer_str (PyList [PyInt 0, PyInt 1])) = Some ([0, 1], [])"
    by (rule mp)
  then have r2: "read_int_array ''[0, 1]'' = Some ([0, 1], [])"
    unfolding e2 .
  show ?thesis
    by (intro conjI) (rule sample_js_q e1 e2 r1 r2)+
qed

section \<open>Properties of text mode\<close>

lemma read_text_no_cr: "cr \<notin> set (read_text s)"
  by (induction s rule: read_text.induct) (auto simp: cr_def nl_def)

lemma read_text_id: "cr \<notin> set s \<Longrightarrow> read_text s = s"
  by (induction s rule: read_text.induct) auto

lemma read_text_Cons_plain: "c \<noteq> cr \<Longrightarrow> read_text (c # s) = c # read_text s"
  by (cases s) simp_all

lemma read_text_append:
  "a = [] \<or> last a \<noteq> cr \<Longrightarrow> read_text (a @ b) = read_text a @ read_text b"
proof (induction a rule: read_text.induct)
  case 1
  show ?case by simp
next
  case (2 c)
  then show ?case by (simp add: read_text_Cons_plain)
next
  case (3 c d ds)
  then show ?case by (auto split: if_splits)
qed

lemma read_text_ends:
  "s \<noteq> [] \<Longrightarrow> last s = nl \<or> last s = cr \<Longrightarrow> read_text s \<noteq> [] \<and> last (read_text s) = nl"
proof (induction s rule: read_text.induct)
  case 1
  then show ?case by simp
next
  case (2 c)
  then show ?case by auto
next
  case (3 c d ds)
  show ?case
  proof (cases "c = cr \<and> d = nl")
    case True
    show ?thesis
    proof (cases "ds = []")
      case e: True
      with True show ?thesis by simp
    next
      case False
      with 3 True show ?thesis by simp
    qed
  next
    case False
    with 3 show ?thesis by (auto split: if_splits)
  qed
qed

lemma write_text_append: "write_text ls (a @ b) = write_text ls a @ write_text ls b"
  by (simp add: write_text_def)

lemma write_text_newline: "write_text [nl] s = s"
  by (induction s) (simp_all add: write_text_def)

lemma write_text_Nil: "write_text ls s = [] \<longleftrightarrow> s = []" if "ls \<noteq> []"
  using that by (induction s) (simp_all add: write_text_def)

lemma write_text_last:
  "s \<noteq> [] \<Longrightarrow> ls \<noteq> [] \<Longrightarrow>
   last (write_text ls s) = (if last s = nl then last ls else last s)"
proof (induction s)
  case Nil
  then show ?case by simp
next
  case (Cons c s)
  show ?case
  proof (cases "s = []")
    case True
    with Cons.prems show ?thesis by (simp add: write_text_def)
  next
    case False
    then have "write_text ls s \<noteq> []"
      using Cons.prems by (simp add: write_text_Nil)
    moreover have "write_text ls (c # s) = (if c = nl then ls else [c]) @ write_text ls s"
      by (simp add: write_text_def)
    ultimately show ?thesis
      using Cons False by simp
  qed
qed

lemma read_write_text:
  assumes "linesep = [nl] \<or> linesep = [cr, nl]" "cr \<notin> set s"
  shows "read_text (write_text linesep s) = s"
  using assms(2)
proof (induction s)
  case Nil
  show ?case by (simp add: write_text_def)
next
  case (Cons c s)
  then have IH: "read_text (write_text linesep s) = s" and c: "c \<noteq> cr"
    by auto
  have w: "write_text linesep (c # s) = (if c = nl then linesep else [c]) @ write_text linesep s"
    by (simp add: write_text_def)
  show ?case
  proof (cases "c = nl")
    case False
    with c IH show ?thesis by (simp add: w read_text_Cons_plain)
  next
    case True
    from assms(1) show ?thesis
    proof
      assume "linesep = [nl]"
      then show ?thesis
        using read_text_id [OF Cons.prems] by (simp only: write_text_newline)
    next
      assume "linesep = [cr, nl]"
      with True w have "write_text linesep (c # s) = cr # nl # write_text linesep s"
        by simp
      then have "read_text (write_text linesep (c # s)) = nl # read_text (write_text linesep s)"
        by simp
      with True IH show ?thesis by simp
    qed
  qed
qed

section \<open>The runs of the script\<close>

lemma splice_found:
  "files w html_name = Some raw \<Longrightarrow>
   splice_block linesep n js w =
     (Completed,
      w\<lparr>files := (files w)(html_name \<mapsto> write_text linesep (rewritten (read_text raw) js)),
        trace := trace w @
          [Read html_name, Write html_name,
           Print (''Successfully added '' @ show_nat n
             @ '' questions from Test #5 to awsprepai-multicert.html''),
           Print (''New total SAA questions: '' @ show_nat (422 + n))]\<rparr>)"
  by (simp add: splice_block_def rewritten_def record_events_def)

lemma main_found:
  assumes "files w source_name = Some raw_source"
    and "re_search (read_text raw_source) = Some array_content"
    and "parse_questions ev array_content = (questions, out)"
  shows "main ev linesep w =
     (case js_questions questions of
        Inl e \<Rightarrow>
          (Raised e,
           record_events (Read source_name # map Print out
             @ [Print (''Parsed '' @ show_nat (length questions) @ '' questions from Test #5'')]) w)
      | Inr js \<Rightarrow>
          splice_block linesep (length questions) js
           (record_events (Read source_name # map Print out
             @ [Print (''Parsed '' @ show_nat (length questions) @ '' questions from Test #5'')]) w))"
  using assms by (simp add: main_def Let_def split: sum.splits)


lemma main_completed:
  assumes "files w source_name = Some raw_source"
    and "re_search (read_text raw_source) = Some array_content"
    and "parse_questions ev array_content = (questions, out)"
    and "js_questions questions = Inr js"
    and "files w html_name = Some raw_html"
  shows "fst (main ev linesep w) = Completed"
    and "files (snd (main ev linesep w))
          = (files w)(html_name \<mapsto> write_text linesep (rewritten (read_text raw_html) js))"
    and "trace (snd (main ev linesep w)) = trace w @ Read source_name # map Print out
          @ [Print (''Parsed '' @ show_nat (length questions) @ '' questions from Test #5''),
             Read html_name, Write html_name,
             Print (''Successfully added '' @ show_nat (length questions)
               @ '' questions from Test #5 to awsprepai-multicert.html''),
             Print (''New total SAA questions: '' @ show_nat (422 + length questions))]"
proof -
  let ?w = "record_events (Read source_name # map Print out
             @ [Print (''Parsed '' @ show_nat (length questions) @ '' questions from Test #5'')]) w"
  have f: "files ?w html_name = Some raw_html"
    using assms(5) by (simp add: record_events_def)
  have m: "main ev linesep w = splice_block linesep (length questions) js ?w"
    using main_found [OF assms(1-3)] assms(4) by simp
  show "fst (main ev linesep w) = Completed"
    unfolding m splice_found [OF f] by simp
  show "files (snd (main ev linesep w))
          = (files w)(html_name \<mapsto> write_text linesep (rewritten (read_text raw_html) js))"
    unfolding m splice_found [OF f] by (simp add: record_events_def)
  show "trace (snd (main ev linesep w)) = trace w @ Read source_name # map Print out
          @ [Print (''Parsed '' @ show_nat (length questions) @ '' questions from Test #5''),
             Read html_name, Write html_name,
             Print (''Successfully added '' @ show_nat (length questions)
               @ '' questions from Test #5 to awsprepai-multicert.html''),
             Print (''New total SAA questions: '' @ show_nat (422 + length questions))]"
    unfolding m splice_found [OF f] by (simp add: record_events_def)
qed

section \<open>The rewritten file, read again\<close>

lemma new_questions_text_comma_lines: "new_questions_text js = comma_lines js"
proof (induction js rule: induct_list012)
  case 1
  show ?case by (simp add: new_questions_text_def comma_lines_def)
next
  case (2 x)
  show ?case by (simp add: new_questions_text_def comma_lines_def)
next
  case (3 x y zs)
  from 3(2) have "join [CHR '','', nl] (y # zs) @ [CHR '','', nl]
      = concat (map (\<lambda>l. l @ [CHR '','', nl]) (y # zs))"
    by (simp add: new_questions_text_def comma_lines_def)
  then show ?case
    by (simp add: new_questions_text_def comma_lines_def)
qed

lemma written_not_cr_end:
  assumes "linesep = [nl] \<or> linesep = [cr, nl]" "cr \<notin> set s"
  shows "write_text linesep s = [] \<or> last (write_text linesep s) \<noteq> cr"
proof (cases "s = []")
  case True
  then show ?thesis by (simp add: write_text_def)
next
  case False
  from assms(1) have l: "linesep \<noteq> []" "last linesep = nl" by auto
  have "last (write_text linesep s) = (if last s = nl then last linesep else last s)"
    using False l(1) by (rule write_text_last)
  moreover have "last s \<noteq> cr" using False assms(2) last_in_set by metis
  ultimately show ?thesis using l by (auto simp: nl_def cr_def)
qed

lemma written_block_end:
  assumes "linesep = [nl] \<or> linesep = [cr, nl]" "b \<noteq> []" "last b = nl"
  shows "write_text linesep b \<noteq> []" "last (write_text linesep b) = nl"
proof -
  from assms(1) have l: "linesep \<noteq> []" "last linesep = nl" by auto
  show "write_text linesep b \<noteq> []"
    using assms(2) l(1) by (simp add: write_text_Nil)
  show "last (write_text linesep b) = nl"
    using write_text_last [OF assms(2) l(1)] assms(3) l(2) by simp
qed

lemma block_read_back_ends:
  assumes "linesep = [nl] \<or> linesep = [cr, nl]" "b \<noteq> []" "last b = nl"
  shows "read_text (write_text linesep b) \<noteq> [] \<and> last (read_text (write_text linesep b)) = nl"
  using written_block_end [OF assms] by (intro read_text_ends) simp_all

lemma read_back_spliced:
  assumes ls: "linesep = [nl] \<or> linesep = [cr, nl]"
    and a: "cr \<notin> set a" and c: "cr \<notin> set c" and b: "b \<noteq> []" "last b = nl"
  shows "read_text (write_text linesep (a @ b @ c)) = a @ read_text (write_text linesep b) @ c"
proof -
  have "read_text (write_text linesep a @ (write_text linesep b @ write_text linesep c))
      = read_text (write_text linesep a) @ read_text (write_text linesep b @ write_text linesep c)"
    using written_not_cr_end [OF ls a] by (rule read_text_append)
  also have "read_text (write_text linesep b @ write_text linesep c)
      = read_text (write_text linesep b) @ read_text (write_text linesep c)"
    using written_block_end [OF ls b] by (intro read_text_append) (simp add: nl_def cr_def)
  finally show ?thesis
    using read_write_text [OF ls a] read_write_text [OF ls c] by (simp add: write_text_append)
qed

lemma concat_take_no_cr: "cr \<notin> set (concat ls) \<Longrightarrow> cr \<notin> set (concat (take n ls))"
  by (auto dest: in_set_takeD)

lemma concat_drop_no_cr: "cr \<notin> set (concat ls) \<Longrightarrow> cr \<notin> set (concat (drop n ls))"
  by (auto dest: in_set_dropD)

lemma read_back_rewritten:
  assumes "linesep = [nl] \<or> linesep = [cr, nl]"
  shows "read_text (write_text linesep (rewritten (read_text raw) js))
     = concat (take insert_line (readlines (read_text raw)))
       @ read_text (write_text linesep (new_questions_text js))
       @ concat (drop insert_line (readlines (read_text raw)))"
proof -
  have "cr \<notin> set (concat (readlines (read_text raw)))"
    by (simp only: concat_readlines read_text_no_cr not_False_eq_True)
  then have "cr \<notin> set (concat (take insert_line (readlines (read_text raw))))"
    "cr \<notin> set (concat (drop insert_line (readlines (read_text raw))))"
    by (rule concat_take_no_cr concat_drop_no_cr)+
  then show ?thesis
    unfolding rewritten_text
    using assms new_questions_text_ends [of js] by (intro read_back_spliced)
qed

lemma readlines_spliced:
  assumes "n < length (readlines html) \<or> html = [] \<or> last html = nl"
    and "b \<noteq> []" "last b = nl"
  shows "readlines (concat (take n (readlines html)) @ b @ concat (drop n (readlines html)))
     = take n (readlines html) @ readlines b @ drop n (readlines html)"
proof -
  let ?L = "readlines html"
  let ?A = "concat (take n ?L)" and ?B = "concat (drop n ?L)"
  have wf: "wf_lines ?L" by (rule wf_lines_readlines)
  have A: "?A = [] \<or> last ?A = nl"
  proof (cases "n < length ?L")
    case True
    with wf show ?thesis by (rule take_ends_nl)
  next
    case False
    then have "?A = html" by (simp add: concat_readlines)
    with False assms(1) show ?thesis by simp
  qed
  have "readlines (?A @ (b @ ?B)) = readlines ?A @ readlines (b @ ?B)"
    using A by (rule readlines_append)
  also have "readlines (b @ ?B) = readlines b @ readlines ?B"
    using assms(2,3) by (intro readlines_append) simp
  also have "readlines ?A = take n ?L"
    using wf by (intro readlines_concat wf_lines_take)
  also have "readlines ?B = drop n ?L"
    using wf by (intro readlines_concat wf_lines_drop)
  finally show ?thesis .
qed

section \<open>No carriage return in an emitted line\<close>

lemma is_digit_not_cr: "is_digit c \<Longrightarrow> c \<noteq> cr"
  by (auto simp: is_digit_def cr_def)

lemma show_int_no_cr: "cr \<notin> set (show_int i)"
  using show_nat_digits [of "nat i"] show_nat_digits [of "nat (- i)"]
  by (auto simp: show_int_def list_all_iff cr_def dest: is_digit_not_cr [unfolded cr_def])

lemma hex_digit_not_cr: "hex_digit d \<noteq> cr" if "d < 16"
proof -
  have "(of_char (hex_digit d) :: nat) = (if d < 10 then 48 + d else 87 + d)"
    using that by (simp add: hex_digit_def)
  then show ?thesis using that by (auto simp: cr_def split: if_splits)
qed

lemma json_escape_char_no_cr: "cr \<notin> set (json_escape_char c)"
proof -
  have "(of_char c :: nat) div 16 < 16"
    using nat_of_char_less_256 [of c] by (simp add: less_mult_imp_div_less)
  then have h1: "hex_digit (of_char c div 16) \<noteq> cr"
    by (rule hex_digit_not_cr)
  have h2: "hex_digit (of_char c mod 16) \<noteq> cr"
    by (rule hex_digit_not_cr) simp
  have k: "bs \<noteq> cr" "dq \<noteq> cr" "CHR ''n'' \<noteq> cr" "CHR ''r'' \<noteq> cr" "CHR ''t'' \<noteq> cr"
    "CHR ''b'' \<noteq> cr" "CHR ''f'' \<noteq> cr" "CHR ''u'' \<noteq> cr" "CHR ''0'' \<noteq> cr" "CHR 0x0D = cr"
    by (simp_all add: bs_def dq_def cr_def)
  show ?thesis
    unfolding json_escape_char_def using h1 h2 k by auto
qed

lemma json_dumps_no_cr: "cr \<notin> set (json_dumps v)"
proof (induction v)
  case (PyInt n)
  show ?case by (simp add: show_int_no_cr)
next
  case (PyStr s)
  show ?case by (auto simp: json_escape_char_no_cr) (simp add: cr_def dq_def)
next
  case (PyList xs)
  have "cr \<notin> set (join '', '' (map json_dumps xs))"
    using set_join [of "'', ''" "map json_dumps xs"] PyList by (auto simp: cr_def)
  then show ?case by (simp add: cr_def)
qed

lemma template_no_cr:
  assumes "cr \<notin> set a" "cr \<notin> set b" "cr \<notin> set c" "cr \<notin> set d" "cr \<notin> set e"
  shows "cr \<notin> set (template a b c d e)"
  using assms by (simp add: template_def cr_def)

lemma replace_quote_no_cr: "cr \<notin> set s \<Longrightarrow> cr \<notin> set (replace_quote s)"
  by (induction s) (auto simp: cr_def bs_def dq_def)

lemma answer_str_no_cr: "(case a of PyStr s \<Rightarrow> cr \<notin> set s | _ \<Rightarrow> True) \<Longrightarrow> cr \<notin> set (answer_str a)"
  using json_dumps_no_cr [of a] by (cases a) (simp_all add: show_int_no_cr)

lemma js_q_no_cr:
  assumes "js_q q = Inr line" "text_fields_one_line q"
  shows "cr \<notin> set line"
proof -
  from assms(1) obtain a cat qt ex opts where
    f: "q ''answer'' = Some a" "q ''cat'' = Some (PyStr cat)" "q ''q'' = Some (PyStr qt)"
      "q ''explain'' = Some (PyStr ex)" "q ''options'' = Some opts"
    and l: "line = template (replace_quote cat) (replace_quote qt) (json_dumps opts)
             (answer_str a) (replace_quote ex)"
    unfolding js_q_Inr by blast
  from assms(2) f have "cr \<notin> set cat" "cr \<notin> set qt" "cr \<notin> set ex"
    "case a of PyStr s \<Rightarrow> cr \<notin> set s | _ \<Rightarrow> True"
    by (simp_all add: text_fields_one_line_def split: pyval.splits)
  then show ?thesis
    unfolding l
    by (intro template_no_cr replace_quote_no_cr answer_str_no_cr json_dumps_no_cr)
qed

lemma js_questions_no_cr:
  assumes "js_questions qs = Inr js" "list_all text_fields_one_line qs"
  shows "\<forall>l \<in> set js. cr \<notin> set l"
proof -
  from assms(1) have m: "map js_q qs = map Inr js" by (simp add: js_questions_Inr)
  then have len: "length qs = length js" by (rule map_eq_imp_length_eq)
  show ?thesis
  proof
    fix l assume "l \<in> set js"
    then obtain i where i: "i < length js" "js ! i = l" by (auto simp: in_set_conv_nth)
    with m len have "js_q (qs ! i) = Inr l"
      by (metis nth_map)
    moreover from assms(2) i len have "text_fields_one_line (qs ! i)"
      by (simp add: list_all_length)
    ultimately show "cr \<notin> set l" by (rule js_q_no_cr)
  qed
qed

lemma new_questions_text_no_cr:
  "\<forall>l \<in> set js. cr \<notin> set l \<Longrightarrow> cr \<notin> set (new_questions_text js)"
  unfolding new_questions_text_comma_lines comma_lines_def
  by (auto simp: cr_def nl_def)

lemma block_read_back_plain:
  assumes "linesep = [nl] \<or> linesep = [cr, nl]"
    and "js_questions qs = Inr js" "list_all text_fields_one_line qs" "qs \<noteq> []"
  shows "readlines (read_text (write_text linesep (new_questions_text js)))
     = map (\<lambda>l. l @ [CHR '','', nl]) js"
proof -
  have "cr \<notin> set (new_questions_text js)"
    using js_questions_no_cr [OF assms(2,3)] by (rule new_questions_text_no_cr)
  then have "read_text (write_text linesep (new_questions_text js)) = new_questions_text js"
    using assms(1) by (intro read_write_text)
  moreover have "js \<noteq> []"
    using js_questions_length [OF assms(2)] assms(4) by auto
  ultimately show ?thesis
    using js_questions_no_nl [OF assms(2,3)] by (simp add: readlines_new_questions_text)
qed

section \<open>The sample run, from the files\<close>

lemma sample_source_text: "read_text sample_source = sample_source"
  by (rule read_text_id)
     (simp add: sample_source_def sample_text1_def sample_text2_def cr_def nl_def)

lemma sample_html_text: "read_text sample_html = sample_html"
  by (rule read_text_id) (simp add: sample_html_def cr_def nl_def)

lemma sample_prep:
  "re_search (read_text sample_source)
     = Some ([nl] @ ''    '' @ sample_text1 @ '','' @ [nl] @ ''    '' @ sample_text2)"
  "parse_questions sample_eval ([nl] @ ''    '' @ sample_text1 @ '','' @ [nl] @ ''    '' @ sample_text2)
     = ([sample_q1, sample_q2], [])"
  "js_questions [sample_q1, sample_q2] = Inr [sample_line1, sample_line2]"
  unfolding sample_source_text
  by (rule sample_search sample_parse sample_js_questions)+

lemma sample_short_run:
  "files (snd (main sample_eval [nl] (sample_world sample_source ''abc''))) html_name
     = Some (''abc'' @ sample_line1 @ [CHR '','', nl] @ sample_line2 @ [CHR '','', nl])"
proof -
  have t: "read_text ''abc'' = ''abc''"
    by (simp add: cr_def)
  have "length (readlines ''abc'') \<le> insert_line"
    by (simp add: insert_line_def nl_def)
  then have "rewritten ''abc'' [sample_line1, sample_line2]
      = ''abc'' @ new_questions_text [sample_line1, sample_line2]"
    by (rule rewritten_short)
  then show ?thesis
    using main_completed(2) [where linesep = "[nl]", OF sample_files(1) sample_prep
        sample_files(2) [of sample_source "''abc''"], unfolded t write_text_newline]
    by (simp add: new_questions_text_def)
qed

lemma sample_lines_no_cr: "cr \<notin> set sample_line1" "cr \<notin> set sample_line2"
  by (simp_all add: sample_line1_def sample_line2_def cr_def)

lemma sample_short_lines:
  "readlines (read_text (''abc'' @ sample_line1 @ [CHR '','', nl] @ sample_line2 @ [CHR '','', nl]))
     = [''abc'' @ sample_line1 @ [CHR '','', nl], sample_line2 @ [CHR '','', nl]]"
proof -
  have "cr \<notin> set (''abc'' @ sample_line1 @ [CHR '','', nl] @ sample_line2 @ [CHR '','', nl])"
    using sample_lines_no_cr by (simp add: cr_def nl_def)
  then have r: "read_text (''abc'' @ sample_line1 @ [CHR '','', nl] @ sample_line2 @ [CHR '','', nl])
      = ''abc'' @ sample_line1 @ [CHR '','', nl] @ sample_line2 @ [CHR '','', nl]"
    by (rule read_text_id)
  have "nl \<notin> set (''abc'' @ sample_line1)"
    using sample_lines_no_nl by (simp add: nl_def)
  then have "readlines ((''abc'' @ sample_line1) @ CHR '','' # nl # sample_line2 @ [CHR '','', nl])
      = ((''abc'' @ sample_line1) @ [CHR '','', nl]) # readlines (sample_line2 @ [CHR '','', nl])"
    by (intro readlines_one_line) (simp add: nl_def)
  moreover have "readlines (sample_line2 @ CHR '','' # nl # []) = (sample_line2 @ [CHR '','', nl]) # readlines []"
    using sample_lines_no_nl by (intro readlines_one_line) (simp_all add: nl_def)
  ultimately show ?thesis unfolding r by simp
qed

section \<open>The missing array\<close>

text \<open>
  Claim C4. When the pattern of the extractor does not match the text read from the
  source, the run prints \<open>Could not find test5_questions array\<close> and ends at once with
  \<open>SystemExit\<close> of status 1. The trace holds the read of the source and that one line, so
  the destination file is not read and not written, and no file changes.
\<close>

theorem missing_array_exits:
  assumes "files w source_name = Some raw_source" and "re_search (read_text raw_source) = None"
  shows "main ev linesep w =
     (Raised (SystemExit 1),
      w\<lparr>trace := trace w @ [Read source_name, Print ''Could not find test5_questions array'']\<rparr>)
   \<and> files (snd (main ev linesep w)) = files w"
  using assms by (simp add: main_def record_events_def)

text \<open>
  Witness for C4: a source without the array.
\<close>

theorem missing_array_exits_witness:
  "main sample_eval [nl] (sample_world ''questions = []'' ''abc'') =
     (Raised (SystemExit 1),
      \<lparr>files = [source_name \<mapsto> ''questions = []'', html_name \<mapsto> ''abc''],
       trace = [Read source_name, Print ''Could not find test5_questions array'']\<rparr>)"
proof -
  have "files (sample_world ''questions = []'' ''abc'') source_name = Some ''questions = []''"
    by (simp add: sample_world_def source_name_def html_name_def)
  moreover have "re_search (read_text ''questions = []'') = None"
    by (simp add: cr_def)
  ultimately show ?thesis
    using missing_array_exits [of "sample_world ''questions = []'' ''abc''" "''questions = []''"
        sample_eval "[nl]"]
    by (simp add: sample_world_def)
qed

section \<open>A destination of few lines\<close>

text \<open>
  Claim C10. When the run reaches the splicer it completes, whatever the number of lines
  of the destination. With 773 lines or fewer the insert puts the block behind the last
  line, and the file is rewritten as the text that was read, followed by the block.
\<close>

theorem short_destination_block_appended:
  assumes "files w source_name = Some raw_source"
    and "re_search (read_text raw_source) = Some array_content"
    and "parse_questions ev array_content = (questions, out)"
    and "js_questions questions = Inr js"
    and "files w html_name = Some raw_html"
  shows "fst (main ev linesep w) = Completed
    \<and> (length (readlines (read_text raw_html)) \<le> insert_line \<longrightarrow>
         list_insert insert_line (new_questions_text js) (readlines (read_text raw_html))
           = readlines (read_text raw_html) @ [new_questions_text js]
         \<and> files (snd (main ev linesep w)) html_name
           = Some (write_text linesep (read_text raw_html @ new_questions_text js)))"
  using main_completed(1,2) [OF assms, of linesep] rewritten_short [of "read_text raw_html" js]
  by (simp add: list_insert_def)

text \<open>
  Witness for C10: the sample run on a destination of one line.
\<close>

theorem short_destination_block_appended_witness:
  "length (readlines (read_text ''abc'')) \<le> insert_line
   \<and> fst (main sample_eval [nl] (sample_world sample_source ''abc'')) = Completed
   \<and> files (snd (main sample_eval [nl] (sample_world sample_source ''abc''))) html_name
       = Some (''abc'' @ new_questions_text [sample_line1, sample_line2])"
proof -
  have t: "read_text ''abc'' = ''abc''"
    by (simp add: cr_def)
  have l: "length (readlines (read_text ''abc'')) \<le> insert_line"
    unfolding t by (simp add: insert_line_def nl_def)
  with short_destination_block_appended [where linesep = "[nl]", OF sample_files(1) sample_prep
      sample_files(2) [of sample_source "''abc''"], unfolded t write_text_newline]
  show ?thesis unfolding t by simp
qed

section \<open>One line per record\<close>

text \<open>
  Claim C3, amended. Let \<open>N \<ge> 1\<close> records parse, let them all be re-emitted, and let no
  text field of a record hold a newline or a carriage return. Let the destination, as
  text mode reads it, have more than 773 lines, or be empty, or end with a line end. Then
  the lines of the rewritten file, read in text mode again, are the first 773 old lines
  (all of them when there are fewer), then one line per record, then the other old lines:
  the block stands immediately before the old line of index 773 where there is one, and
  the file has exactly \<open>N\<close> lines more than before. The line separator of the platform
  is a newline, or a carriage return and a newline.
\<close>

theorem block_adds_one_line_per_record:
  assumes "files w source_name = Some raw_source"
    and "re_search (read_text raw_source) = Some array_content"
    and "parse_questions ev array_content = (questions, out)"
    and "js_questions questions = Inr js"
    and "questions \<noteq> []"
    and "list_all text_fields_one_line questions"
    and "files w html_name = Some raw_html"
    and "insert_line < length (readlines (read_text raw_html))
         \<or> read_text raw_html = [] \<or> last (read_text raw_html) = nl"
    and "linesep = [nl] \<or> linesep = [cr, nl]"
  shows "\<exists>new_raw.
      files (snd (main ev linesep w)) html_name = Some new_raw
    \<and> readlines (read_text new_raw) =
        take insert_line (readlines (read_text raw_html)) @ map (\<lambda>l. l @ [CHR '','', nl]) js
          @ drop insert_line (readlines (read_text raw_html))
    \<and> length (readlines (read_text new_raw))
        = length (readlines (read_text raw_html)) + length questions"
proof -
  let ?L = "readlines (read_text raw_html)"
  let ?new = "write_text linesep (rewritten (read_text raw_html) js)"
  let ?block = "read_text (write_text linesep (new_questions_text js))"
  have f: "files (snd (main ev linesep w)) html_name = Some ?new"
    using main_completed(2) [OF assms(1-4) assms(7), of linesep] by simp
  have n: "length js = length questions"
    using assms(4) by (rule js_questions_length)
  have b: "readlines ?block = map (\<lambda>l. l @ [CHR '','', nl]) js"
    using assms(9,4,6,5) by (rule block_read_back_plain)
  have e: "?block \<noteq> []" "last ?block = nl"
    using block_read_back_ends [OF assms(9) new_questions_text_ends, of js] by simp_all
  have "readlines (read_text ?new) = readlines (concat (take insert_line ?L) @ ?block
      @ concat (drop insert_line ?L))"
    by (simp only: read_back_rewritten [OF assms(9)])
  also have "\<dots> = take insert_line ?L @ readlines ?block @ drop insert_line ?L"
    using assms(8) e by (rule readlines_spliced)
  finally have r: "readlines (read_text ?new) =
      take insert_line ?L @ map (\<lambda>l. l @ [CHR '','', nl]) js @ drop insert_line ?L"
    unfolding b .
  have "length (take insert_line ?L @ drop insert_line ?L) = length ?L"
    by (simp only: append_take_drop_id)
  then have "length (readlines (read_text ?new)) = length ?L + length questions"
    unfolding r using n by simp
  with f r show ?thesis by blast
qed

text \<open>
  Witness for C3: the two records of the sample run and a destination of 774 lines, on a
  platform that writes a carriage return and a newline. The first record's line is line
  773 of the rewritten file, which has 776 lines.
\<close>

theorem block_adds_one_line_per_record_witness:
  "length (readlines (read_text sample_html)) = 774
   \<and> (\<exists>new_raw.
        files (snd (main sample_eval [cr, nl] (sample_world sample_source sample_html))) html_name
          = Some new_raw
      \<and> readlines (read_text new_raw) ! 773 = sample_line1 @ [CHR '','', nl]
      \<and> length (readlines (read_text new_raw)) = 776)"
proof -
  have l: "length (readlines (read_text sample_html)) = 774"
    by (simp add: sample_html_text sample_html_lines)
  then have h: "insert_line < length (readlines (read_text sample_html))
      \<or> read_text sample_html = [] \<or> last (read_text sample_html) = nl"
    by (simp add: insert_line_def)
  have t: "length (take insert_line (readlines (read_text sample_html))) = 773"
    using l by (simp add: insert_line_def)
  from block_adds_one_line_per_record [where linesep = "[cr, nl]", OF sample_files(1) sample_prep _
      sample_one_line sample_files(2) h]
  obtain new_raw where
    f: "files (snd (main sample_eval [cr, nl] (sample_world sample_source sample_html))) html_name
          = Some new_raw"
    and r: "readlines (read_text new_raw) =
        take insert_line (readlines (read_text sample_html))
          @ map (\<lambda>l. l @ [CHR '','', nl]) [sample_line1, sample_line2]
          @ drop insert_line (readlines (read_text sample_html))"
    and c: "length (readlines (read_text new_raw))
        = length (readlines (read_text sample_html)) + length [sample_q1, sample_q2]"
    by auto
  from r t have "readlines (read_text new_raw) ! 773 = sample_line1 @ [CHR '','', nl]"
    by (simp add: nth_append)
  moreover from c l have "length (readlines (read_text new_raw)) = 776"
    by simp
  ultimately show ?thesis using f l by blast
qed

text \<open>
  Counterexample to C3 as it is stated: the destination is the one line \<open>abc\<close> with no
  newline at its end. Two records parse and their text fields hold no newline, and the
  file has one line before the run and two lines after it: the first record's text
  continues the old last line, so the count grows by one, not by two.
\<close>

theorem short_destination_line_count_counterexample:
  "fst (parse_questions sample_eval (the (re_search (read_text sample_source))))
     = [sample_q1, sample_q2]
   \<and> list_all text_fields_one_line [sample_q1, sample_q2]
   \<and> files (sample_world sample_source ''abc'') html_name = Some ''abc''
   \<and> length (readlines (read_text ''abc'')) = 1
   \<and> files (snd (main sample_eval [nl] (sample_world sample_source ''abc''))) html_name
       = Some (''abc'' @ sample_line1 @ [CHR '','', nl] @ sample_line2 @ [CHR '','', nl])
   \<and> length (readlines (read_text
         (''abc'' @ sample_line1 @ [CHR '','', nl] @ sample_line2 @ [CHR '','', nl])))
       = 2"
proof -
  have a: "fst (parse_questions sample_eval (the (re_search (read_text sample_source))))
      = [sample_q1, sample_q2]"
    unfolding sample_prep(1) option.sel sample_prep(2) by simp
  have b: "length (readlines (read_text ''abc'')) = 1" by (simp add: nl_def cr_def)
  have c: "length (readlines (read_text
         (''abc'' @ sample_line1 @ [CHR '','', nl] @ sample_line2 @ [CHR '','', nl])))
       = 2"
    unfolding sample_short_lines by simp
  show ?thesis
    by (intro conjI) (rule a sample_one_line sample_files b sample_short_run c)+
qed

section \<open>The lines of the destination\<close>

text \<open>
  Claim C9, amended. When the run reaches the splicer, only the destination file changes.
  Lines are taken as text mode reads them, with a carriage return and a newline, or a
  carriage return alone, read as one newline. Read so, the rewritten file is the old text
  with the block inserted behind its first 773 lines (all of them when there are fewer).
  If the old text has more than 773 lines, or is empty, or ends with a line end, then
  every old line is a line of the rewritten file, unchanged and in its order: the lines
  of index below 773 in their places, the other lines behind the lines of the block. On
  disk every line end is written as the line separator of the platform; where that is a
  newline and the destination holds no carriage return, the file on disk is its old text
  with the block inserted.
\<close>

theorem old_lines_kept_around_block:
  assumes "files w source_name = Some raw_source"
    and "re_search (read_text raw_source) = Some array_content"
    and "parse_questions ev array_content = (questions, out)"
    and "js_questions questions = Inr js"
    and "files w html_name = Some raw_html"
    and "linesep = [nl] \<or> linesep = [cr, nl]"
  shows "\<exists>new_raw.
      files (snd (main ev linesep w)) = (files w)(html_name \<mapsto> new_raw)
    \<and> read_text raw_html = concat (take insert_line (readlines (read_text raw_html)))
          @ concat (drop insert_line (readlines (read_text raw_html)))
    \<and> read_text new_raw = concat (take insert_line (readlines (read_text raw_html)))
          @ read_text (write_text linesep (new_questions_text js))
          @ concat (drop insert_line (readlines (read_text raw_html)))
    \<and> (insert_line < length (readlines (read_text raw_html))
          \<or> read_text raw_html = [] \<or> last (read_text raw_html) = nl \<longrightarrow>
         readlines (read_text new_raw) =
           take insert_line (readlines (read_text raw_html))
             @ readlines (read_text (write_text linesep (new_questions_text js)))
             @ drop insert_line (readlines (read_text raw_html)))
    \<and> (cr \<notin> set raw_html \<and> linesep = [nl] \<longrightarrow>
         new_raw = concat (take insert_line (readlines raw_html)) @ new_questions_text js
           @ concat (drop insert_line (readlines raw_html)))"
proof -
  let ?html = "read_text raw_html"
  let ?L = "readlines ?html"
  let ?new = "write_text linesep (rewritten ?html js)"
  let ?block = "read_text (write_text linesep (new_questions_text js))"
  have f: "files (snd (main ev linesep w)) = (files w)(html_name \<mapsto> ?new)"
    by (rule main_completed(2) [OF assms(1-5)])
  have "?html = concat (take insert_line ?L @ drop insert_line ?L)"
    by (simp only: append_take_drop_id concat_readlines)
  also have "\<dots> = concat (take insert_line ?L) @ concat (drop insert_line ?L)"
    by (rule concat_append)
  finally have o: "?html = concat (take insert_line ?L) @ concat (drop insert_line ?L)" .
  have t: "read_text ?new = concat (take insert_line ?L) @ ?block @ concat (drop insert_line ?L)"
    by (rule read_back_rewritten [OF assms(6)])
  have e: "?block \<noteq> []" "last ?block = nl"
    using block_read_back_ends [OF assms(6) new_questions_text_ends, of js] by simp_all
  have l: "insert_line < length ?L \<or> ?html = [] \<or> last ?html = nl \<longrightarrow>
      readlines (read_text ?new) = take insert_line ?L @ readlines ?block @ drop insert_line ?L"
  proof
    assume "insert_line < length ?L \<or> ?html = [] \<or> last ?html = nl"
    then show "readlines (read_text ?new) = take insert_line ?L @ readlines ?block @ drop insert_line ?L"
      unfolding t using e by (rule readlines_spliced)
  qed
  have d: "cr \<notin> set raw_html \<and> linesep = [nl] \<longrightarrow>
      ?new = concat (take insert_line (readlines raw_html)) @ new_questions_text js
           @ concat (drop insert_line (readlines raw_html))"
    by (auto simp: read_text_id write_text_newline rewritten_text)
  from f o t l d show ?thesis by blast
qed

text \<open>
  Witness for C9: the sample run on a destination of two lines that end with a carriage
  return and a newline. Read in text mode, the rewritten file has the two old lines and
  then the two lines of the block.
\<close>

theorem old_lines_kept_around_block_witness:
  "readlines (read_text sample_html_crlf) = [''<p>'' @ [nl], ''</p>'' @ [nl]]
   \<and> (\<exists>new_raw.
        files (snd (main sample_eval [nl] (sample_world sample_source sample_html_crlf))) html_name
          = Some new_raw
      \<and> readlines (read_text new_raw)
          = [''<p>'' @ [nl], ''</p>'' @ [nl],
             sample_line1 @ [CHR '','', nl], sample_line2 @ [CHR '','', nl]])"
proof -
  have t: "read_text sample_html_crlf = ''<p>'' @ [nl] @ ''</p>'' @ [nl]"
    by (simp add: sample_html_crlf_def cr_def nl_def)
  have l: "readlines (read_text sample_html_crlf) = [''<p>'' @ [nl], ''</p>'' @ [nl]]"
    unfolding t by (simp add: nl_def)
  have h: "insert_line < length (readlines (read_text sample_html_crlf))
      \<or> read_text sample_html_crlf = [] \<or> last (read_text sample_html_crlf) = nl"
    unfolding t by simp
  have b: "readlines (read_text (write_text [nl] (new_questions_text [sample_line1, sample_line2])))
      = [sample_line1 @ [CHR '','', nl], sample_line2 @ [CHR '','', nl]]"
    using block_read_back_plain [OF _ sample_prep(3) sample_one_line, of "[nl]"] by simp
  from old_lines_kept_around_block [where linesep = "[nl]", OF sample_files(1) sample_prep
      sample_files(2) [of sample_source sample_html_crlf]]
  obtain new_raw where
    f: "files (snd (main sample_eval [nl] (sample_world sample_source sample_html_crlf)))
          = (files (sample_world sample_source sample_html_crlf))(html_name \<mapsto> new_raw)"
    and r: "insert_line < length (readlines (read_text sample_html_crlf))
          \<or> read_text sample_html_crlf = [] \<or> last (read_text sample_html_crlf) = nl \<longrightarrow>
         readlines (read_text new_raw) =
           take insert_line (readlines (read_text sample_html_crlf))
             @ readlines (read_text (write_text [nl] (new_questions_text [sample_line1, sample_line2])))
             @ drop insert_line (readlines (read_text sample_html_crlf))"
    by auto
  from r h have "readlines (read_text new_raw) =
           take insert_line (readlines (read_text sample_html_crlf))
             @ readlines (read_text (write_text [nl] (new_questions_text [sample_line1, sample_line2])))
             @ drop insert_line (readlines (read_text sample_html_crlf))"
    by blast
  then have "readlines (read_text new_raw)
      = [''<p>'' @ [nl], ''</p>'' @ [nl],
         sample_line1 @ [CHR '','', nl], sample_line2 @ [CHR '','', nl]]"
    unfolding b l by (simp add: insert_line_def)
  moreover from f have "files (snd (main sample_eval [nl] (sample_world sample_source sample_html_crlf)))
      html_name = Some new_raw"
    by simp
  ultimately show ?thesis using l by blast
qed

text \<open>
  Counterexample to C9 as it is stated: the destination is the one line \<open>abc\<close> with no
  newline at its end. After the run that line is not a line of the file any more: the
  first line of the file is \<open>abc\<close> followed by the first record.
\<close>

theorem short_destination_last_line_counterexample:
  "files (sample_world sample_source ''abc'') html_name = Some ''abc''
   \<and> readlines (read_text ''abc'') = [''abc'']
   \<and> files (snd (main sample_eval [nl] (sample_world sample_source ''abc''))) html_name
       = Some (''abc'' @ sample_line1 @ [CHR '','', nl] @ sample_line2 @ [CHR '','', nl])
   \<and> readlines (read_text (''abc'' @ sample_line1 @ [CHR '','', nl] @ sample_line2 @ [CHR '','', nl]))
       = [''abc'' @ sample_line1 @ [CHR '','', nl], sample_line2 @ [CHR '','', nl]]
   \<and> ''abc'' \<notin> set [''abc'' @ sample_line1 @ [CHR '','', nl], sample_line2 @ [CHR '','', nl]]"
proof -
  have a: "readlines (read_text ''abc'') = [''abc'']" by (simp add: nl_def cr_def)
  have b: "''abc'' \<notin> set [''abc'' @ sample_line1 @ [CHR '','', nl], sample_line2 @ [CHR '','', nl]]"
    by (simp add: sample_line2_def)
  show ?thesis
    by (intro conjI) (rule sample_files a sample_short_run sample_short_lines b)+
qed

section \<open>A fragment that does not evaluate\<close>













end
